theory Spec2Isabelle
  imports Main "HOL-Library.Word"
begin

unbundle bit_operations_syntax

section \<open>The bit-banged I2C master of BitBangI2C.hxx\<close>

text \<open>
  The driver toggles two open-drain lines from a periodic tick interrupt. The embedding keeps
  the class members as a record, the enumerations as datatypes, and makes the three external
  collaborators explicit: the GPIO pins (every \<open>gpio_set\<close>/\<open>gpio_clr\<close> is appended to an
  effect log, every \<open>read()\<close> takes its value from the levels supplied with the tick), the tick
  source (a flag that \<open>enableTick_\<close>/\<open>disableTick_\<close> switch) and the counting semaphore
  \<open>sem_\<close> (a counter). Member names lose their trailing underscore.
\<close>

subsection \<open>External collaborators\<close>

datatype Value = CLR | SET

datatype Pin = SDA | SCL

datatype effect = Released Pin | DrivenLow Pin | EnableTick | DisableTick | SemPost

text \<open>What \<open>scl_->read()\<close> and \<open>sda_->read()\<close> return during one tick.\<close>

record levels =
  scl_read :: Value
  sda_read :: Value

text \<open>
  \<open>struct i2c_msg\<close> (declared outside the repository): 16-bit address, flags and length, and a
  pointer to the bytes. The pointer is modelled by the memory it points into, indexed by the
  signed offset the code adds to it; \<open>len\<close> is a separate field, as in the struct.
\<close>

record i2c_msg =
  addr :: "16 word"
  flags :: "16 word"
  len :: "16 word"
  buf :: "int \<Rightarrow> 8 word"

definition I2C_M_RD :: "16 word" where
  "I2C_M_RD = 0x0001"

definition EIO :: int where
  "EIO = 5"

definition EINVAL :: int where
  "EINVAL = 22"

subsection \<open>State enumerations\<close>

datatype State = START | ADDRESS | DATA_TX | DATA_RX | STOP

datatype StateStart = Start_SDA_SET | Start_SCL_SET | Start_SDA_CLR

datatype StateStop = Stop_SDA_CLR | Stop_SCL_SET | Stop_SDA_SET

datatype StateTx =
    Tx_DATA_7_SCL_CLR | Tx_DATA_7_SCL_SET
  | Tx_DATA_6_SCL_CLR | Tx_DATA_6_SCL_SET
  | Tx_DATA_5_SCL_CLR | Tx_DATA_5_SCL_SET
  | Tx_DATA_4_SCL_CLR | Tx_DATA_4_SCL_SET
  | Tx_DATA_3_SCL_CLR | Tx_DATA_3_SCL_SET
  | Tx_DATA_2_SCL_CLR | Tx_DATA_2_SCL_SET
  | Tx_DATA_1_SCL_CLR | Tx_DATA_1_SCL_SET
  | Tx_DATA_0_SCL_CLR | Tx_DATA_0_SCL_SET
  | Tx_ACK_SDA_SET_SCL_CLR | Tx_ACK_SCL_SET | Tx_ACK_SCL_CLR

datatype StateRx =
    Rx_DATA_7_SCL_SET | Rx_DATA_7_SCL_CLR
  | Rx_DATA_6_SCL_SET | Rx_DATA_6_SCL_CLR
  | Rx_DATA_5_SCL_SET | Rx_DATA_5_SCL_CLR
  | Rx_DATA_4_SCL_SET | Rx_DATA_4_SCL_CLR
  | Rx_DATA_3_SCL_SET | Rx_DATA_3_SCL_CLR
  | Rx_DATA_2_SCL_SET | Rx_DATA_2_SCL_CLR
  | Rx_DATA_1_SCL_SET | Rx_DATA_1_SCL_CLR
  | Rx_DATA_0_SCL_SET | Rx_DATA_0_SCL_CLR
  | Rx_ACK_SDA_SCL_SET | Rx_ACK_SCL_CLR

text \<open>
  The four sub-state members share one byte (an anonymous union of \<open>uint8_t\<close> enumerations).
  The record holds that byte; each member is read by decoding it and written by storing the
  enumerator's value, so a write through one member is seen through the others as in the code.
\<close>

definition StateStart_enum :: "StateStart list" where
  "StateStart_enum = [Start_SDA_SET, Start_SCL_SET, Start_SDA_CLR]"

definition StateStop_enum :: "StateStop list" where
  "StateStop_enum = [Stop_SDA_CLR, Stop_SCL_SET, Stop_SDA_SET]"

definition StateTx_enum :: "StateTx list" where
  "StateTx_enum =
    [Tx_DATA_7_SCL_CLR, Tx_DATA_7_SCL_SET, Tx_DATA_6_SCL_CLR, Tx_DATA_6_SCL_SET,
     Tx_DATA_5_SCL_CLR, Tx_DATA_5_SCL_SET, Tx_DATA_4_SCL_CLR, Tx_DATA_4_SCL_SET,
     Tx_DATA_3_SCL_CLR, Tx_DATA_3_SCL_SET, Tx_DATA_2_SCL_CLR, Tx_DATA_2_SCL_SET,
     Tx_DATA_1_SCL_CLR, Tx_DATA_1_SCL_SET, Tx_DATA_0_SCL_CLR, Tx_DATA_0_SCL_SET,
     Tx_ACK_SDA_SET_SCL_CLR, Tx_ACK_SCL_SET, Tx_ACK_SCL_CLR]"

definition StateRx_enum :: "StateRx list" where
  "StateRx_enum =
    [Rx_DATA_7_SCL_SET, Rx_DATA_7_SCL_CLR, Rx_DATA_6_SCL_SET, Rx_DATA_6_SCL_CLR,
     Rx_DATA_5_SCL_SET, Rx_DATA_5_SCL_CLR, Rx_DATA_4_SCL_SET, Rx_DATA_4_SCL_CLR,
     Rx_DATA_3_SCL_SET, Rx_DATA_3_SCL_CLR, Rx_DATA_2_SCL_SET, Rx_DATA_2_SCL_CLR,
     Rx_DATA_1_SCL_SET, Rx_DATA_1_SCL_CLR, Rx_DATA_0_SCL_SET, Rx_DATA_0_SCL_CLR,
     Rx_ACK_SDA_SCL_SET, Rx_ACK_SCL_CLR]"

text \<open>\<open>static_cast<int>(x)\<close>: the position of the enumerator in its declaration.\<close>

fun enum_val :: "'a list \<Rightarrow> 'a \<Rightarrow> nat" where
  "enum_val [] x = 0"
| "enum_val (y # ys) x = (if x = y then 0 else Suc (enum_val ys x))"

definition enum_of :: "'a list \<Rightarrow> nat \<Rightarrow> 'a option" where
  "enum_of xs n = (if n < length xs then Some (xs ! n) else None)"

definition StateStart_val :: "StateStart \<Rightarrow> nat" where
  "StateStart_val = enum_val StateStart_enum"

definition StateStop_val :: "StateStop \<Rightarrow> nat" where
  "StateStop_val = enum_val StateStop_enum"

definition StateTx_val :: "StateTx \<Rightarrow> nat" where
  "StateTx_val = enum_val StateTx_enum"

definition StateRx_val :: "StateRx \<Rightarrow> nat" where
  "StateRx_val = enum_val StateRx_enum"

definition StateStart_FIRST :: StateStart where "StateStart_FIRST = Start_SDA_SET"
definition StateStart_LAST :: StateStart where "StateStart_LAST = Start_SDA_CLR"
definition StateStop_FIRST :: StateStop where "StateStop_FIRST = Stop_SDA_CLR"
definition StateStop_LAST :: StateStop where "StateStop_LAST = Stop_SDA_SET"
definition StateTx_FIRST :: StateTx where "StateTx_FIRST = Tx_DATA_7_SCL_CLR"
definition StateTx_LAST :: StateTx where "StateTx_LAST = Tx_ACK_SCL_CLR"
definition StateRx_FIRST :: StateRx where "StateRx_FIRST = Rx_DATA_7_SCL_SET"
definition StateRx_LAST :: StateRx where "StateRx_LAST = Rx_ACK_SCL_CLR"

text \<open>
  The pre-increment operators, on the stored byte: one step forward inside
  \<open>[FIRST, LAST)\<close>, nothing otherwise.
\<close>

definition incr :: "nat \<Rightarrow> nat \<Rightarrow> nat \<Rightarrow> nat" where
  "incr lo hi x = (if lo \<le> x \<and> x < hi then x + 1 else x)"

subsection \<open>The driver object\<close>

record BitBangI2C =
  msg :: "i2c_msg option"
  sem :: nat
  count :: int
  state :: State
  subState :: nat
  stop :: bool
  clockStretchActive :: bool
  ticking :: bool
  log :: "effect list"

definition stateStart :: "BitBangI2C \<Rightarrow> StateStart option" where
  "stateStart d = enum_of StateStart_enum (subState d)"

definition stateStop :: "BitBangI2C \<Rightarrow> StateStop option" where
  "stateStop d = enum_of StateStop_enum (subState d)"

definition stateTx :: "BitBangI2C \<Rightarrow> StateTx option" where
  "stateTx d = enum_of StateTx_enum (subState d)"

definition stateRx :: "BitBangI2C \<Rightarrow> StateRx option" where
  "stateRx d = enum_of StateRx_enum (subState d)"

definition incr_stateStart :: "BitBangI2C \<Rightarrow> BitBangI2C" where
  "incr_stateStart d =
     d\<lparr>subState := incr (StateStart_val StateStart_FIRST) (StateStart_val StateStart_LAST) (subState d)\<rparr>"

definition incr_stateStop :: "BitBangI2C \<Rightarrow> BitBangI2C" where
  "incr_stateStop d =
     d\<lparr>subState := incr (StateStop_val StateStop_FIRST) (StateStop_val StateStop_LAST) (subState d)\<rparr>"

definition incr_stateTx :: "BitBangI2C \<Rightarrow> BitBangI2C" where
  "incr_stateTx d =
     d\<lparr>subState := incr (StateTx_val StateTx_FIRST) (StateTx_val StateTx_LAST) (subState d)\<rparr>"

definition incr_stateRx :: "BitBangI2C \<Rightarrow> BitBangI2C" where
  "incr_stateRx d =
     d\<lparr>subState := incr (StateRx_val StateRx_FIRST) (StateRx_val StateRx_LAST) (subState d)\<rparr>"

text \<open>\<open>gpio_set\<close> switches the pin to input (the pull-up raises the line); \<open>gpio_clr\<close>
  drives it low.\<close>

definition gpio_set :: "Pin \<Rightarrow> BitBangI2C \<Rightarrow> BitBangI2C" where
  "gpio_set p d = d\<lparr>log := log d @ [Released p]\<rparr>"

definition gpio_clr :: "Pin \<Rightarrow> BitBangI2C \<Rightarrow> BitBangI2C" where
  "gpio_clr p d = d\<lparr>log := log d @ [DrivenLow p]\<rparr>"

definition enableTick :: "BitBangI2C \<Rightarrow> BitBangI2C" where
  "enableTick d = d\<lparr>ticking := True, log := log d @ [EnableTick]\<rparr>"

definition disableTick :: "BitBangI2C \<Rightarrow> BitBangI2C" where
  "disableTick d = d\<lparr>ticking := False, log := log d @ [DisableTick]\<rparr>"

definition post_from_isr :: "BitBangI2C \<Rightarrow> BitBangI2C" where
  "post_from_isr d = d\<lparr>sem := sem d + 1, log := log d @ [SemPost]\<rparr>"

text \<open>
  The constructor. Whether the periodic tick is already running is the caller's business (the
  class comment asks for it to be enabled to start), so it is a parameter.
\<close>

definition BitBangI2C_new :: "bool \<Rightarrow> BitBangI2C" where
  "BitBangI2C_new tick_running =
     gpio_clr SCL (gpio_set SDA
       \<lparr>msg = None, sem = 0, count = 0, state = STOP,
        subState = StateStop_val Stop_SDA_CLR, stop = True,
        clockStretchActive = False, ticking = tick_running, log = []\<rparr>)"

subsection \<open>The four sub-state machines\<close>

definition state_start :: "BitBangI2C \<Rightarrow> BitBangI2C \<times> bool" where
  "state_start d =
     (case stateStart d of
        Some Start_SDA_SET \<Rightarrow> (incr_stateStart (gpio_set SDA d), False)
      | Some Start_SCL_SET \<Rightarrow> (incr_stateStart (gpio_set SCL d), False)
      | Some Start_SDA_CLR \<Rightarrow> (incr_stateStart (gpio_clr SDA d), True)
      | None \<Rightarrow> (d, False))"

definition state_stop :: "BitBangI2C \<Rightarrow> BitBangI2C \<times> bool" where
  "state_stop d =
     (case stateStop d of
        Some Stop_SDA_CLR \<Rightarrow> (incr_stateStop (gpio_clr SDA d), False)
      | Some Stop_SCL_SET \<Rightarrow> (incr_stateStop (gpio_set SCL d), False)
      | Some Stop_SDA_SET \<Rightarrow> ((gpio_set SDA d)\<lparr>stop := False\<rparr>, True)
      | None \<Rightarrow> (d, False))"

definition tx_scl_clr_labels :: "StateTx list" where
  "tx_scl_clr_labels =
     [Tx_DATA_7_SCL_CLR, Tx_DATA_6_SCL_CLR, Tx_DATA_5_SCL_CLR, Tx_DATA_4_SCL_CLR,
      Tx_DATA_3_SCL_CLR, Tx_DATA_2_SCL_CLR, Tx_DATA_1_SCL_CLR, Tx_DATA_0_SCL_CLR]"

definition tx_scl_set_labels :: "StateTx list" where
  "tx_scl_set_labels =
     [Tx_DATA_7_SCL_SET, Tx_DATA_6_SCL_SET, Tx_DATA_5_SCL_SET, Tx_DATA_4_SCL_SET,
      Tx_DATA_3_SCL_SET, Tx_DATA_2_SCL_SET, Tx_DATA_1_SCL_SET, Tx_DATA_0_SCL_SET]"

definition tx_mask :: "StateTx \<Rightarrow> 8 word" where
  "tx_mask s = drop_bit ((StateTx_val s - StateTx_val Tx_DATA_7_SCL_CLR) div 2) 0x80"

definition state_tx :: "BitBangI2C \<Rightarrow> 8 word \<Rightarrow> levels \<Rightarrow> BitBangI2C \<times> bool" where
  "state_tx d data i =
     (case stateTx d of
        None \<Rightarrow> (d, False)
      | Some s \<Rightarrow>
          if s \<in> set tx_scl_clr_labels then
            (let d1 = gpio_clr SCL d;
                 d2 = (if data AND tx_mask s \<noteq> 0 then gpio_set SDA d1 else gpio_clr SDA d1)
             in (incr_stateTx d2, False))
          else if s \<in> set tx_scl_set_labels then
            (incr_stateTx (gpio_set SCL d), False)
          else if s = Tx_ACK_SDA_SET_SCL_CLR then
            (incr_stateTx (gpio_set SDA (gpio_clr SCL d)), False)
          else if s = Tx_ACK_SCL_SET then
            (incr_stateTx (gpio_set SCL d), False)
          else
            if scl_read i = CLR then (d\<lparr>clockStretchActive := True\<rparr>, False)
            else if clockStretchActive d then (d\<lparr>clockStretchActive := False\<rparr>, False)
            else
              (let ack = (sda_read i = CLR);
                   d1 = gpio_clr SCL d
               in (if \<not> ack then d1\<lparr>count := - EIO\<rparr> else d1, True)))"

definition rx_scl_set_labels :: "StateRx list" where
  "rx_scl_set_labels =
     [Rx_DATA_6_SCL_SET, Rx_DATA_5_SCL_SET, Rx_DATA_4_SCL_SET, Rx_DATA_3_SCL_SET,
      Rx_DATA_2_SCL_SET, Rx_DATA_1_SCL_SET, Rx_DATA_0_SCL_SET]"

definition rx_scl_clr_labels :: "StateRx list" where
  "rx_scl_clr_labels =
     [Rx_DATA_7_SCL_CLR, Rx_DATA_6_SCL_CLR, Rx_DATA_5_SCL_CLR, Rx_DATA_4_SCL_CLR,
      Rx_DATA_3_SCL_CLR, Rx_DATA_2_SCL_CLR, Rx_DATA_1_SCL_CLR, Rx_DATA_0_SCL_CLR]"

text \<open>
  \<open>state_rx\<close> works on the byte its pointer argument designates: it takes the byte's value
  and returns the new one, which the caller stores back.
\<close>

definition state_rx ::
  "BitBangI2C \<Rightarrow> 8 word \<Rightarrow> bool \<Rightarrow> levels \<Rightarrow> BitBangI2C \<times> 8 word \<times> bool" where
  "state_rx d data nack i =
     (case stateRx d of
        None \<Rightarrow> (d, data, False)
      | Some s \<Rightarrow>
          if s = Rx_DATA_7_SCL_SET then
            (incr_stateRx (gpio_set SCL (gpio_set SDA d)), data, False)
          else if s \<in> set rx_scl_set_labels then
            (incr_stateRx (gpio_set SCL d), data, False)
          else if s \<in> set rx_scl_clr_labels then
            if scl_read i = CLR then (d\<lparr>clockStretchActive := True\<rparr>, data, False)
            else if clockStretchActive d then (d\<lparr>clockStretchActive := False\<rparr>, data, False)
            else
              (let data1 = push_bit 1 data;
                   data2 = (if sda_read i = SET then data1 OR 0x01 else data1);
                   d1 = gpio_clr SCL d;
                   d2 = (if s = Rx_DATA_0_SCL_CLR \<and> \<not> nack then gpio_clr SDA d1 else d1)
               in (incr_stateRx d2, data2, False))
          else if s = Rx_ACK_SDA_SCL_SET then
            (incr_stateRx (gpio_set SCL d), data, False)
          else
            if scl_read i = CLR then (d\<lparr>clockStretchActive := True\<rparr>, data, False)
            else if clockStretchActive d then (d\<lparr>clockStretchActive := False\<rparr>, data, False)
            else (gpio_set SDA (gpio_clr SCL d), data, True))"

subsection \<open>The tick handler\<close>

datatype failure = NullDereference | StillBlocked

definition address_byte :: "i2c_msg \<Rightarrow> 8 word" where
  "address_byte m =
     (let address = ucast (push_bit 1 (addr m)) :: 8 word
      in if flags m AND I2C_M_RD \<noteq> 0 then address OR 0x1 else address)"

definition goto_stop :: "BitBangI2C \<Rightarrow> BitBangI2C" where
  "goto_stop d = d\<lparr>state := STOP, subState := StateStop_val StateStop_FIRST\<rparr>"

text \<open>The tail of the handler: \<open>if (exit) { disableTick_(); sem_.post_from_isr(...); }\<close>.\<close>

definition leave :: "bool \<Rightarrow> BitBangI2C \<Rightarrow> BitBangI2C" where
  "leave exit d = (if exit then post_from_isr (disableTick d) else d)"

definition tick_interrupt :: "BitBangI2C \<Rightarrow> levels \<Rightarrow> failure + BitBangI2C" where
  "tick_interrupt d i =
     (case state d of
        START \<Rightarrow>
          (let (d1, done) = state_start d
           in Inr (leave False
                (if done then d1\<lparr>state := ADDRESS, subState := StateTx_val StateTx_FIRST\<rparr>
                 else d1)))
      | ADDRESS \<Rightarrow>
          (case msg d of
             None \<Rightarrow> Inl NullDereference
           | Some m \<Rightarrow>
               (let (d1, done) = state_tx d (address_byte m) i
                in Inr (leave False
                     (if done then
                        (if count d1 < 0 then goto_stop d1
                         else if flags m AND I2C_M_RD \<noteq> 0
                           then d1\<lparr>state := DATA_RX, subState := StateRx_val StateRx_FIRST\<rparr>
                           else d1\<lparr>state := DATA_TX, subState := StateTx_val StateTx_FIRST\<rparr>)
                      else d1))))
      | DATA_TX \<Rightarrow>
          (case msg d of
             None \<Rightarrow> Inl NullDereference
           | Some m \<Rightarrow>
               (let (d1, done) = state_tx d (buf m (count d)) i
                in if done then
                     (if count d1 < 0 then Inr (leave False (goto_stop d1))
                      else
                        (let d2 = d1\<lparr>count := count d1 + 1\<rparr>
                         in if count d2 \<ge> uint (len m) then
                              (if stop d2 then Inr (leave False (goto_stop d2))
                               else Inr (leave True d2))
                            else Inr (leave False (d2\<lparr>subState := StateTx_val StateTx_FIRST\<rparr>))))
                   else Inr (leave False d1)))
      | DATA_RX \<Rightarrow>
          (case msg d of
             None \<Rightarrow> Inl NullDereference
           | Some m \<Rightarrow>
               (let (d0, data, done) =
                      state_rx d (buf m (count d)) (count d + 1 \<ge> uint (len m)) i;
                    d1 = d0\<lparr>msg := Some (m\<lparr>buf := (buf m)(count d := data)\<rparr>)\<rparr>
                in if done then
                     (if count d1 < 0 then Inr (leave True d1)
                      else
                        (let d2 = d1\<lparr>count := count d1 + 1\<rparr>
                         in if count d2 \<ge> uint (len m) then
                              (if stop d2 then Inr (leave False (goto_stop d2))
                               else Inr (leave True d2))
                            else Inr (leave False (d2\<lparr>subState := StateRx_val StateRx_FIRST\<rparr>))))
                   else Inr (leave False d1)))
      | STOP \<Rightarrow>
          (let (d1, exit) = state_stop d in Inr (leave exit d1)))"

subsection \<open>The blocking transfer\<close>

text \<open>
  The task side. The list holds the pin levels of the timer periods that pass while the task
  is suspended; in each period the handler runs if ticking is enabled. \<open>sem_.wait()\<close>
  returns at once when the count is positive and otherwise sleeps through timer periods until a
  post; \<open>StillBlocked\<close> says that the periods supplied ran out first.
\<close>

definition timer_period :: "BitBangI2C \<Rightarrow> levels \<Rightarrow> failure + BitBangI2C" where
  "timer_period d i = (if ticking d then tick_interrupt d i else Inr d)"

fun sem_wait :: "BitBangI2C \<Rightarrow> levels list \<Rightarrow> failure + BitBangI2C \<times> levels list" where
  "sem_wait d [] =
     (if sem d > 0 then Inr (d\<lparr>sem := sem d - 1\<rparr>, []) else Inl StillBlocked)"
| "sem_wait d (i # ins) =
     (if sem d > 0 then Inr (d\<lparr>sem := sem d - 1\<rparr>, i # ins)
      else case timer_period d i of
             Inl f \<Rightarrow> Inl f
           | Inr d' \<Rightarrow> sem_wait d' ins)"

text \<open>\<open>while (stop_) sem_.wait();\<close>: the task sleeps until the pending stop sequence is over.\<close>

function wait_bus_idle ::
  "BitBangI2C \<Rightarrow> levels list \<Rightarrow> failure + BitBangI2C \<times> levels list" where
  "wait_bus_idle d ins =
     (if stop d then
        (case sem_wait d ins of
           Inl f \<Rightarrow> Inl f
         | Inr (d', ins') \<Rightarrow> wait_bus_idle d' ins')
      else Inr (d, ins))"
  by pat_completeness auto
termination
proof (relation "measure (\<lambda>(d, ins). 2 * length ins + sem d)")
  show "wf (measure (\<lambda>(d, ins). 2 * length ins + sem d))"
    by simp
next
  fix d :: BitBangI2C and ins :: "levels list" and x d' ins'
  assume "stop d" and w: "sem_wait d ins = Inr x" and x: "(d', ins') = x"
  have post: "sem e' \<le> sem e + 1" if "timer_period e i = Inr e'" for e e' i
    using that
    by (auto simp: timer_period_def tick_interrupt_def leave_def post_from_isr_def
          disableTick_def goto_stop_def state_start_def state_stop_def state_tx_def
          state_rx_def incr_stateStart_def incr_stateStop_def incr_stateTx_def
          incr_stateRx_def gpio_set_def gpio_clr_def Let_def
        split: if_splits State.splits option.splits StateStart.splits StateStop.splits
          prod.splits)
  have "2 * length ins' + sem d' < 2 * length ins + sem d"
    if "sem_wait d ins = Inr (d', ins')" for d ins d' ins'
    using that
  proof (induction ins arbitrary: d)
    case Nil
    then show ?case by (auto split: if_splits)
  next
    case (Cons i ins)
    show ?case
    proof (cases "sem d > 0")
      case True
      with Cons.prems show ?thesis by auto
    next
      case False
      with Cons.prems obtain e where e: "timer_period d i = Inr e"
        and r: "sem_wait e ins = Inr (d', ins')"
        by (auto split: sum.splits)
      from Cons.IH [OF r] post [OF e] False show ?thesis by simp
    qed
  qed
  with w x show "((d', ins'), (d, ins)) \<in> measure (\<lambda>(d, ins). 2 * length ins + sem d)"
    by auto
qed

declare wait_bus_idle.simps [simp del]

text \<open>
  \<open>transfer\<close>. The length test reads the member \<open>msg_\<close>, the message installed by the
  previous call (the null pointer after construction), before \<open>msg_ = msg\<close>. The result holds
  the value returned, the driver, and the timer periods not yet used.
\<close>

definition arm :: "BitBangI2C \<Rightarrow> i2c_msg \<Rightarrow> bool \<Rightarrow> BitBangI2C" where
  "arm d m stp =
     enableTick (d\<lparr>msg := Some m, count := 0, stop := stp, state := START,
                  subState := StateStart_val StateStart_FIRST\<rparr>)"

definition transfer ::
  "BitBangI2C \<Rightarrow> i2c_msg \<Rightarrow> bool \<Rightarrow> levels list
     \<Rightarrow> failure + int \<times> BitBangI2C \<times> levels list" where
  "transfer d m stp ins =
     (case wait_bus_idle d ins of
        Inl f \<Rightarrow> Inl f
      | Inr (d1, ins1) \<Rightarrow>
          (case msg d1 of
             None \<Rightarrow> Inl NullDereference
           | Some m0 \<Rightarrow>
               if len m0 = 0 then Inr (- EINVAL, d1, ins1)
               else
                 (case sem_wait (arm d1 m stp) ins1 of
                    Inl f \<Rightarrow> Inl f
                  | Inr (d2, ins2) \<Rightarrow> Inr (count d2, d2, ins2))))"

subsection \<open>Observing a run\<close>

text \<open>The driver after a sequence of timer periods, whoever is waiting.\<close>

fun run_ticks :: "BitBangI2C \<Rightarrow> levels list \<Rightarrow> failure + BitBangI2C" where
  "run_ticks d [] = Inr d"
| "run_ticks d (i # ins) =
     (case timer_period d i of
        Inl f \<Rightarrow> Inl f
      | Inr d' \<Rightarrow> run_ticks d' ins)"

text \<open>
  A tick detects a NACK when it runs the acknowledge-sampling branch of \<open>state_tx\<close> (the
  only place that assigns \<open>count_ = -EIO\<close>) and SDA reads high.
\<close>

definition samples_nack :: "BitBangI2C \<Rightarrow> levels \<Rightarrow> bool" where
  "samples_nack d i =
     (ticking d \<and> (state d = ADDRESS \<or> state d = DATA_TX) \<and> msg d \<noteq> None
      \<and> stateTx d = Some Tx_ACK_SCL_CLR \<and> scl_read i = SET
      \<and> \<not> clockStretchActive d \<and> sda_read i = SET)"

fun nack_detected :: "BitBangI2C \<Rightarrow> levels list \<Rightarrow> bool" where
  "nack_detected d [] = False"
| "nack_detected d (i # ins) =
     (samples_nack d i \<or>
      (case timer_period d i of
         Inl f \<Rightarrow> False
       | Inr d' \<Rightarrow> nack_detected d' ins))"

subsection \<open>What the bus should show\<close>

text \<open>
  Descriptions of bus traffic, used to state the properties: the effects of one transmitted
  data bit (clock low, data bit on SDA, clock high), of the eight data bits of a byte from the
  most significant one, and the SDA levels among a list of effects.
\<close>

definition sda_effect :: "bool \<Rightarrow> effect" where
  "sda_effect b = (if b then Released SDA else DrivenLow SDA)"

definition tx_bit_effects :: "8 word \<Rightarrow> nat \<Rightarrow> effect list" where
  "tx_bit_effects data k = [DrivenLow SCL, sda_effect (bit data k), Released SCL]"

definition tx_data_effects :: "8 word \<Rightarrow> effect list" where
  "tx_data_effects data = concat (map (tx_bit_effects data) [7, 6, 5, 4, 3, 2, 1, 0])"

fun sda_levels :: "effect list \<Rightarrow> Value list" where
  "sda_levels [] = []"
| "sda_levels (Released SDA # es) = SET # sda_levels es"
| "sda_levels (DrivenLow SDA # es) = CLR # sda_levels es"
| "sda_levels (e # es) = sda_levels es"

definition start_effects :: "effect list" where
  "start_effects = [Released SDA, Released SCL, DrivenLow SDA]"

definition stop_effects :: "effect list" where
  "stop_effects = [DrivenLow SDA, Released SCL, Released SDA]"

text \<open>\<open>state_tx\<close> applied tick after tick to the same byte, as the handler does.\<close>

fun tx_steps :: "BitBangI2C \<Rightarrow> 8 word \<Rightarrow> levels list \<Rightarrow> BitBangI2C" where
  "tx_steps d data [] = d"
| "tx_steps d data (i # ins) = tx_steps (fst (state_tx d data i)) data ins"

text \<open>
  The steps that call \<open>scl_->read()\<close> before they act: the acknowledge sampling of
  \<open>state_tx\<close>, and the eight sampling steps and the last step of \<open>state_rx\<close>.
\<close>

definition waits_for_scl :: "BitBangI2C \<Rightarrow> bool" where
  "waits_for_scl d =
     (case state d of
        START \<Rightarrow> False
      | ADDRESS \<Rightarrow> stateTx d = Some Tx_ACK_SCL_CLR
      | DATA_TX \<Rightarrow> stateTx d = Some Tx_ACK_SCL_CLR
      | DATA_RX \<Rightarrow>
          (case stateRx d of
             None \<Rightarrow> False
           | Some s \<Rightarrow> s \<in> set rx_scl_clr_labels \<or> s = Rx_ACK_SCL_CLR)
      | STOP \<Rightarrow> False)"

subsection \<open>Concrete inputs\<close>

text \<open>
  A slave that never stretches the clock and acknowledges every byte (SCL reads high, SDA reads
  low), one that leaves SDA high, two write messages to address \<open>0x50\<close> that differ in
  \<open>len\<close> only, a read message, and a driver as a completed one-byte write leaves it.
\<close>

definition acking :: levels where
  "acking = \<lparr>scl_read = SET, sda_read = CLR\<rparr>"

definition nacking :: levels where
  "nacking = \<lparr>scl_read = SET, sda_read = SET\<rparr>"

definition stretching :: levels where
  "stretching = \<lparr>scl_read = CLR, sda_read = SET\<rparr>"

definition one_byte_write :: i2c_msg where
  "one_byte_write = \<lparr>addr = 0x50, flags = 0, len = 1, buf = (\<lambda>k. 0xA5)\<rparr>"

definition empty_write :: i2c_msg where
  "empty_write = \<lparr>addr = 0x50, flags = 0, len = 0, buf = (\<lambda>k. 0xA5)\<rparr>"

definition one_byte_read :: i2c_msg where
  "one_byte_read = \<lparr>addr = 0x50, flags = I2C_M_RD, len = 1, buf = (\<lambda>k. 0)\<rparr>"

definition idle_driver :: BitBangI2C where
  "idle_driver =
     \<lparr>msg = Some one_byte_write, sem = 0, count = 1, state = STOP,
      subState = StateStop_val Stop_SDA_SET, stop = False, clockStretchActive = False,
      ticking = False, log = []\<rparr>"

definition addressing :: BitBangI2C where
  "addressing =
     \<lparr>msg = Some one_byte_read, sem = 0, count = 0, state = ADDRESS,
      subState = StateTx_val StateTx_FIRST, stop = True, clockStretchActive = False,
      ticking = True, log = []\<rparr>"

definition awaiting_ack :: BitBangI2C where
  "awaiting_ack =
     \<lparr>msg = Some one_byte_write, sem = 0, count = 0, state = DATA_TX,
      subState = StateTx_val Tx_ACK_SCL_CLR, stop = True, clockStretchActive = False,
      ticking = True, log = []\<rparr>"

subsection \<open>Frames\<close>

text \<open>
  Two abbreviations for what the sub-state machines leave alone: the effects they add are GPIO
  operations only, and they touch neither the semaphore, the tick source, the message pointer
  nor the high-level state.
\<close>

definition gpio_only :: "effect list \<Rightarrow> bool" where
  "gpio_only es = (EnableTick \<notin> set es \<and> DisableTick \<notin> set es \<and> SemPost \<notin> set es)"

definition same_task_state :: "BitBangI2C \<Rightarrow> BitBangI2C \<Rightarrow> bool" where
  "same_task_state d e =
     (sem e = sem d \<and> ticking e = ticking d \<and> msg e = msg d \<and> state e = state d)"

subsection \<open>Invariants of an armed transfer\<close>

text \<open>
  The handler keeps the address, flags and length of the installed message, and it keeps the
  byte count where the high-level state says it must be.
\<close>

definition same_message :: "i2c_msg \<Rightarrow> BitBangI2C \<Rightarrow> bool" where
  "same_message m d =
     (case msg d of
        None \<Rightarrow> False
      | Some m' \<Rightarrow> addr m' = addr m \<and> flags m' = flags m \<and> len m' = len m)"

definition count_ok :: "i2c_msg \<Rightarrow> BitBangI2C \<Rightarrow> bool" where
  "count_ok m d =
     (case state d of
        START \<Rightarrow> ticking d \<and> count d = 0
      | ADDRESS \<Rightarrow> ticking d \<and> count d = 0
      | DATA_TX \<Rightarrow> 0 \<le> count d
          \<and> (if ticking d then count d < uint (len m) else count d = uint (len m))
      | DATA_RX \<Rightarrow> 0 \<le> count d
          \<and> (if ticking d then count d < uint (len m) else count d = uint (len m))
      | STOP \<Rightarrow> count d = uint (len m) \<or> count d = - EIO)"

subsection \<open>What a read should show on the bus\<close>

text \<open>
  The acknowledge clock of a transmitted byte; the effects of one received byte (SDA released,
  eight clock pulses, SDA driven low for an ACK or left released for a NACK, the acknowledge
  clock pulse, SDA released); and those of a read of \<open>n\<close> bytes: \<open>n - 1\<close> bytes that the master
  acknowledges and a last one that it does not. \<open>sampled v\<close> is a tick at which SCL reads high
  and SDA reads \<open>v\<close>.
\<close>

definition sampled :: "Value \<Rightarrow> levels" where
  "sampled v = \<lparr>scl_read = SET, sda_read = v\<rparr>"

definition tx_ack_effects :: "effect list" where
  "tx_ack_effects = [DrivenLow SCL, Released SDA, Released SCL, DrivenLow SCL]"

definition rx_byte_effects :: "bool \<Rightarrow> effect list" where
  "rx_byte_effects nack =
     [Released SDA] @ concat (replicate 8 [Released SCL, DrivenLow SCL])
       @ (if nack then [] else [DrivenLow SDA])
       @ [Released SCL, DrivenLow SCL, Released SDA]"

definition read_effects :: "nat \<Rightarrow> effect list" where
  "read_effects n = concat (replicate (n - 1) (rx_byte_effects False)) @ rx_byte_effects True"

subsection \<open>Bookkeeping for the proofs\<close>

text \<open>
  The effects each step of a sub-state machine adds, step by step; the number of bytes still
  to transfer; and from these the effects still to come in a read with a stop, as a function
  of the driver state. A well-formed sub-state is one that decodes in the enumeration of the
  current high-level state.
\<close>

definition start_script :: "effect list list" where
  "start_script = [[Released SDA], [Released SCL], [DrivenLow SDA]]"

definition stop_script :: "effect list list" where
  "stop_script = [[DrivenLow SDA], [Released SCL], [Released SDA, DisableTick, SemPost]]"

definition tx_script :: "8 word \<Rightarrow> effect list list" where
  "tx_script data =
     concat (map (\<lambda>k. [[DrivenLow SCL, sda_effect (bit data k)], [Released SCL]])
               [7, 6, 5, 4, 3, 2, 1, 0])
       @ [[DrivenLow SCL, Released SDA], [Released SCL], [DrivenLow SCL]]"

definition rx_script :: "bool \<Rightarrow> effect list list" where
  "rx_script nack =
     [[Released SDA, Released SCL], [DrivenLow SCL]]
       @ concat (replicate 6 [[Released SCL], [DrivenLow SCL]])
       @ [[Released SCL], DrivenLow SCL # (if nack then [] else [DrivenLow SDA]),
          [Released SCL], [DrivenLow SCL, Released SDA]]"

definition bytes_left :: "i2c_msg \<Rightarrow> BitBangI2C \<Rightarrow> nat" where
  "bytes_left m d = nat (uint (len m) - count d)"

definition rest_bytes :: "nat \<Rightarrow> effect list" where
  "rest_bytes k = (if k = 0 then [] else read_effects k)"

definition rx_todo :: "nat \<Rightarrow> nat \<Rightarrow> effect list" where
  "rx_todo k s = concat (drop s (rx_script (k \<le> 1))) @ rest_bytes (k - 1)"

definition read_todo :: "i2c_msg \<Rightarrow> BitBangI2C \<Rightarrow> effect list" where
  "read_todo m d =
     (if \<not> ticking d then []
      else case state d of
        START \<Rightarrow> concat (drop (subState d) start_script) @ concat (tx_script (address_byte m))
                   @ rx_todo (bytes_left m d) 0 @ concat stop_script
      | ADDRESS \<Rightarrow> concat (drop (subState d) (tx_script (address_byte m)))
                   @ rx_todo (bytes_left m d) 0 @ concat stop_script
      | DATA_TX \<Rightarrow> []
      | DATA_RX \<Rightarrow> rx_todo (bytes_left m d) (subState d) @ concat stop_script
      | STOP \<Rightarrow> concat (drop (subState d) stop_script))"

definition sub_state_ok :: "BitBangI2C \<Rightarrow> bool" where
  "sub_state_ok d =
     (case state d of
        START \<Rightarrow> stateStart d \<noteq> None
      | ADDRESS \<Rightarrow> stateTx d \<noteq> None
      | DATA_TX \<Rightarrow> stateTx d \<noteq> None
      | DATA_RX \<Rightarrow> stateRx d \<noteq> None
      | STOP \<Rightarrow> stateStop d \<noteq> None)"

definition read_armed :: "i2c_msg \<Rightarrow> BitBangI2C \<Rightarrow> bool" where
  "read_armed m d =
     (same_message m d \<and> count_ok m d
      \<and> (ticking d \<longrightarrow> sub_state_ok d \<and> state d \<noteq> DATA_TX \<and> (state d \<noteq> STOP \<longrightarrow> stop d)))"

definition two_byte_read :: i2c_msg where
  "two_byte_read = \<lparr>addr = 0x50, flags = I2C_M_RD, len = 2, buf = (\<lambda>k. 0xFF)\<rparr>"

definition receiving :: BitBangI2C where
  "receiving =
     \<lparr>msg = Some two_byte_read, sem = 0, count = 0, state = DATA_RX,
      subState = StateRx_val StateRx_FIRST, stop = True, clockStretchActive = False,
      ticking = True, log = []\<rparr>"

subsection \<open>Ticks to completion\<close>

text \<open>
  The number of ticks a transfer takes when the clock is never stretched and nothing is
  NACKed: three for the start sequence, nineteen for the address byte, nineteen for each byte
  transmitted or eighteen for each byte received, and three for the stop sequence if one is
  asked for; and, from any state on the way, the number of ticks still to go. A driver is on
  course when its message, byte count, sub-state and direction fit its high-level state and
  no clock stretch is pending.
\<close>

definition byte_ticks :: "i2c_msg \<Rightarrow> nat" where
  "byte_ticks m = (if flags m AND I2C_M_RD \<noteq> 0 then 18 else 19)"

definition steps_left :: "i2c_msg \<Rightarrow> BitBangI2C \<Rightarrow> nat" where
  "steps_left m d =
     (case state d of
        START \<Rightarrow> (3 - subState d) + 19 + byte_ticks m * bytes_left m d + (if stop d then 3 else 0)
      | ADDRESS \<Rightarrow> (19 - subState d) + byte_ticks m * bytes_left m d + (if stop d then 3 else 0)
      | DATA_TX \<Rightarrow> (19 - subState d) + 19 * (bytes_left m d - 1) + (if stop d then 3 else 0)
      | DATA_RX \<Rightarrow> (18 - subState d) + 18 * (bytes_left m d - 1) + (if stop d then 3 else 0)
      | STOP \<Rightarrow> 3 - subState d)"

definition direction_ok :: "i2c_msg \<Rightarrow> BitBangI2C \<Rightarrow> bool" where
  "direction_ok m d =
     (case state d of
        DATA_TX \<Rightarrow> flags m AND I2C_M_RD = 0
      | DATA_RX \<Rightarrow> flags m AND I2C_M_RD \<noteq> 0
      | _ \<Rightarrow> True)"

definition on_course :: "i2c_msg \<Rightarrow> BitBangI2C \<Rightarrow> bool" where
  "on_course m d =
     (same_message m d \<and> count_ok m d \<and> sub_state_ok d \<and> direction_ok m d
      \<and> \<not> clockStretchActive d)"

definition transfer_ticks :: "i2c_msg \<Rightarrow> bool \<Rightarrow> nat" where
  "transfer_ticks m stp = 3 + 19 + byte_ticks m * unat (len m) + (if stp then 3 else 0)"



section \<open>Verification\<close>

subsection \<open>Reading and writing the shared sub-state byte\<close>

lemma enum_val_in: "x \<in> set xs \<Longrightarrow> enum_val xs x < length xs \<and> xs ! enum_val xs x = x"
  by (induction xs) auto

lemma enum_of_val: "x \<in> set xs \<Longrightarrow> enum_of xs (enum_val xs x) = Some x"
  by (simp add: enum_of_def enum_val_in)

lemma enum_val_nth: "distinct xs \<Longrightarrow> n < length xs \<Longrightarrow> enum_val xs (xs ! n) = n"
  by (induction xs arbitrary: n) (auto simp: nth_Cons split: nat.splits)

lemma enum_of_SomeD: "distinct xs \<Longrightarrow> enum_of xs n = Some x \<Longrightarrow> n = enum_val xs x"
  by (auto simp: enum_of_def enum_val_nth split: if_splits)

lemma StateStart_val_simps:
  "StateStart_val Start_SDA_SET = 0"
  "StateStart_val Start_SCL_SET = 1"
  "StateStart_val Start_SDA_CLR = 2"
  by (simp_all add: StateStart_val_def StateStart_enum_def)

lemma stateStart_iff: "stateStart d = Some s \<longleftrightarrow> subState d = StateStart_val s"
proof
  assume "stateStart d = Some s"
  then show "subState d = StateStart_val s"
    unfolding stateStart_def StateStart_val_def
    by (rule enum_of_SomeD [rotated]) (simp add: StateStart_enum_def)
next
  assume "subState d = StateStart_val s"
  moreover have "s \<in> set StateStart_enum"
    by (cases s) (simp_all add: StateStart_enum_def)
  ultimately show "stateStart d = Some s"
    by (simp add: stateStart_def StateStart_val_def enum_of_val)
qed

lemma StateStop_val_simps:
  "StateStop_val Stop_SDA_CLR = 0"
  "StateStop_val Stop_SCL_SET = 1"
  "StateStop_val Stop_SDA_SET = 2"
  by (simp_all add: StateStop_val_def StateStop_enum_def)

lemma stateStop_iff: "stateStop d = Some s \<longleftrightarrow> subState d = StateStop_val s"
proof
  assume "stateStop d = Some s"
  then show "subState d = StateStop_val s"
    unfolding stateStop_def StateStop_val_def
    by (rule enum_of_SomeD [rotated]) (simp add: StateStop_enum_def)
next
  assume "subState d = StateStop_val s"
  moreover have "s \<in> set StateStop_enum"
    by (cases s) (simp_all add: StateStop_enum_def)
  ultimately show "stateStop d = Some s"
    by (simp add: stateStop_def StateStop_val_def enum_of_val)
qed

lemma StateTx_val_simps:
  "StateTx_val Tx_DATA_7_SCL_CLR = 0"
  "StateTx_val Tx_DATA_7_SCL_SET = 1"
  "StateTx_val Tx_DATA_6_SCL_CLR = 2"
  "StateTx_val Tx_DATA_6_SCL_SET = 3"
  "StateTx_val Tx_DATA_5_SCL_CLR = 4"
  "StateTx_val Tx_DATA_5_SCL_SET = 5"
  "StateTx_val Tx_DATA_4_SCL_CLR = 6"
  "StateTx_val Tx_DATA_4_SCL_SET = 7"
  "StateTx_val Tx_DATA_3_SCL_CLR = 8"
  "StateTx_val Tx_DATA_3_SCL_SET = 9"
  "StateTx_val Tx_DATA_2_SCL_CLR = 10"
  "StateTx_val Tx_DATA_2_SCL_SET = 11"
  "StateTx_val Tx_DATA_1_SCL_CLR = 12"
  "StateTx_val Tx_DATA_1_SCL_SET = 13"
  "StateTx_val Tx_DATA_0_SCL_CLR = 14"
  "StateTx_val Tx_DATA_0_SCL_SET = 15"
  "StateTx_val Tx_ACK_SDA_SET_SCL_CLR = 16"
  "StateTx_val Tx_ACK_SCL_SET = 17"
  "StateTx_val Tx_ACK_SCL_CLR = 18"
  by (simp_all add: StateTx_val_def StateTx_enum_def)

lemma stateTx_iff: "stateTx d = Some s \<longleftrightarrow> subState d = StateTx_val s"
proof
  assume "stateTx d = Some s"
  then show "subState d = StateTx_val s"
    unfolding stateTx_def StateTx_val_def
    by (rule enum_of_SomeD [rotated]) (simp add: StateTx_enum_def)
next
  assume "subState d = StateTx_val s"
  moreover have "s \<in> set StateTx_enum"
    by (cases s) (simp_all add: StateTx_enum_def)
  ultimately show "stateTx d = Some s"
    by (simp add: stateTx_def StateTx_val_def enum_of_val)
qed

lemma StateRx_val_simps:
  "StateRx_val Rx_DATA_7_SCL_SET = 0"
  "StateRx_val Rx_DATA_7_SCL_CLR = 1"
  "StateRx_val Rx_DATA_6_SCL_SET = 2"
  "StateRx_val Rx_DATA_6_SCL_CLR = 3"
  "StateRx_val Rx_DATA_5_SCL_SET = 4"
  "StateRx_val Rx_DATA_5_SCL_CLR = 5"
  "StateRx_val Rx_DATA_4_SCL_SET = 6"
  "StateRx_val Rx_DATA_4_SCL_CLR = 7"
  "StateRx_val Rx_DATA_3_SCL_SET = 8"
  "StateRx_val Rx_DATA_3_SCL_CLR = 9"
  "StateRx_val Rx_DATA_2_SCL_SET = 10"
  "StateRx_val Rx_DATA_2_SCL_CLR = 11"
  "StateRx_val Rx_DATA_1_SCL_SET = 12"
  "StateRx_val Rx_DATA_1_SCL_CLR = 13"
  "StateRx_val Rx_DATA_0_SCL_SET = 14"
  "StateRx_val Rx_DATA_0_SCL_CLR = 15"
  "StateRx_val Rx_ACK_SDA_SCL_SET = 16"
  "StateRx_val Rx_ACK_SCL_CLR = 17"
  by (simp_all add: StateRx_val_def StateRx_enum_def)

lemma stateRx_iff: "stateRx d = Some s \<longleftrightarrow> subState d = StateRx_val s"
proof
  assume "stateRx d = Some s"
  then show "subState d = StateRx_val s"
    unfolding stateRx_def StateRx_val_def
    by (rule enum_of_SomeD [rotated]) (simp add: StateRx_enum_def)
next
  assume "subState d = StateRx_val s"
  moreover have "s \<in> set StateRx_enum"
    by (cases s) (simp_all add: StateRx_enum_def)
  ultimately show "stateRx d = Some s"
    by (simp add: stateRx_def StateRx_val_def enum_of_val)
qed

lemmas val_simps = StateStart_val_simps StateStop_val_simps StateTx_val_simps StateRx_val_simps
  StateStart_FIRST_def StateStart_LAST_def StateStop_FIRST_def StateStop_LAST_def
  StateTx_FIRST_def StateTx_LAST_def StateRx_FIRST_def StateRx_LAST_def

lemmas decode_simps = stateStart_def stateStop_def stateTx_def stateRx_def enum_of_def
  StateStart_enum_def StateStop_enum_def StateTx_enum_def StateRx_enum_def

lemmas sub_defs = state_start_def state_stop_def state_tx_def state_rx_def
  incr_stateStart_def incr_stateStop_def incr_stateTx_def incr_stateRx_def incr_def
  gpio_set_def gpio_clr_def tx_scl_clr_labels_def tx_scl_set_labels_def
  rx_scl_set_labels_def rx_scl_clr_labels_def

lemmas tick_defs = tick_interrupt_def leave_def post_from_isr_def disableTick_def goto_stop_def
  Let_def

lemma Value_not_CLR [simp]: "(v \<noteq> CLR) = (v = SET)"
  by (cases v) simp_all

lemma Value_not_SET [simp]: "(v \<noteq> SET) = (v = CLR)"
  by (cases v) simp_all

lemma tx_mask_simps:
  "tx_mask Tx_DATA_7_SCL_CLR = 128" "tx_mask Tx_DATA_6_SCL_CLR = 64"
  "tx_mask Tx_DATA_5_SCL_CLR = 32" "tx_mask Tx_DATA_4_SCL_CLR = 16"
  "tx_mask Tx_DATA_3_SCL_CLR = 8" "tx_mask Tx_DATA_2_SCL_CLR = 4"
  "tx_mask Tx_DATA_1_SCL_CLR = 2" "tx_mask Tx_DATA_0_SCL_CLR = 1"
  by (simp_all add: tx_mask_def StateTx_val_simps)

lemma and_mask_bit:
  fixes data :: "8 word"
  shows "(data AND 128 \<noteq> 0) = bit data 7" "(data AND 64 \<noteq> 0) = bit data 6"
    "(data AND 32 \<noteq> 0) = bit data 5" "(data AND 16 \<noteq> 0) = bit data 4"
    "(data AND 8 \<noteq> 0) = bit data 3" "(data AND 4 \<noteq> 0) = bit data 2"
    "(data AND 2 \<noteq> 0) = bit data 1" "(data AND 1 \<noteq> 0) = bit data 0"
  using and_exp_eq_0_iff_not_bit [of data 7] and_exp_eq_0_iff_not_bit [of data 6]
    and_exp_eq_0_iff_not_bit [of data 5] and_exp_eq_0_iff_not_bit [of data 4]
    and_exp_eq_0_iff_not_bit [of data 3] and_exp_eq_0_iff_not_bit [of data 2]
    and_exp_eq_0_iff_not_bit [of data 1] and_exp_eq_0_iff_not_bit [of data 0]
  by simp_all

lemma sda_write:
  "(if c then gpio_set SDA d else gpio_clr SDA d) = d\<lparr>log := log d @ [sda_effect c]\<rparr>"
  by (simp add: sda_effect_def gpio_set_def gpio_clr_def)

lemma replicate_numeral: "replicate (numeral k) x = x # replicate (pred_numeral k) x"
  by (simp add: numeral_eq_Suc)

lemma wait_bus_idle_idle: "\<not> stop d \<Longrightarrow> wait_bus_idle d ins = Inr (d, ins)"
  by (simp add: wait_bus_idle.simps)

lemmas run_defs = timer_period_def tick_defs sub_defs val_simps decode_simps sda_write
  tx_mask_simps and_mask_bit

lemma run_ticks_append:
  "run_ticks d (xs @ ys) = (case run_ticks d xs of Inl f \<Rightarrow> Inl f | Inr d' \<Rightarrow> run_ticks d' ys)"
  by (induction xs arbitrary: d) (auto split: sum.splits)

lemma sem_wait_pos: "0 < sem d \<Longrightarrow> sem_wait d ins = Inr (d\<lparr>sem := sem d - 1\<rparr>, ins)"
  by (cases ins) simp_all

subsection \<open>What a sub-state machine leaves alone\<close>

lemma state_start_frame:
  "state_start d = (e, fin) \<Longrightarrow>
     same_task_state d e \<and> stop e = stop d \<and> count e = count d
     \<and> (\<exists>es. log e = log d @ es \<and> gpio_only es)"
  by (auto simp: state_start_def same_task_state_def gpio_only_def incr_stateStart_def
      gpio_set_def gpio_clr_def split: option.splits StateStart.splits)

lemma state_stop_frame:
  "state_stop d = (e, fin) \<Longrightarrow>
     same_task_state d e \<and> count e = count d
     \<and> (\<exists>es. log e = log d @ es \<and> gpio_only es)"
  by (auto simp: state_stop_def same_task_state_def gpio_only_def incr_stateStop_def
      gpio_set_def gpio_clr_def split: option.splits StateStop.splits)

lemma state_tx_frame:
  assumes "state_tx d data i = (e, fin)"
  shows "same_task_state d e \<and> stop e = stop d
     \<and> (count e = count d \<or> count e = - EIO \<and> fin \<and> stateTx d = Some Tx_ACK_SCL_CLR
          \<and> scl_read i = SET \<and> \<not> clockStretchActive d \<and> sda_read i = SET)
     \<and> (\<exists>es. log e = log d @ es \<and> gpio_only es)"
proof (cases "stateTx d")
  case None
  with assms show ?thesis
    by (auto simp: state_tx_def same_task_state_def gpio_only_def)
next
  case (Some s)
  with assms show ?thesis
    by (cases s)
       (auto simp: state_tx_def same_task_state_def gpio_only_def incr_stateTx_def
          gpio_set_def gpio_clr_def Let_def tx_scl_clr_labels_def tx_scl_set_labels_def
        split: if_splits)
qed

lemma state_rx_frame:
  "state_rx d data nk i = (e, x, fin) \<Longrightarrow>
     same_task_state d e \<and> stop e = stop d \<and> count e = count d
     \<and> (\<exists>es. log e = log d @ es \<and> gpio_only es)"
  by (cases "stateRx d")
     (auto simp: state_rx_def same_task_state_def gpio_only_def incr_stateRx_def
        gpio_set_def gpio_clr_def Let_def
      split: if_splits)

lemma tick_discipline:
  assumes "tick_interrupt d i = Inr d'"
  shows "\<exists>es. log d' = log d @ es \<and> EnableTick \<notin> set es
           \<and> (DisableTick \<in> set es \<longleftrightarrow> sem d' = Suc (sem d))
           \<and> (if sem d' = Suc (sem d) then \<not> ticking d'
                else ticking d' = ticking d \<and> sem d' = sem d)"
proof (cases "state d")
  case START
  obtain e fin where r: "state_start d = (e, fin)" by (cases "state_start d") auto
  from state_start_frame [OF r] assms START r show ?thesis
    by (cases fin) (auto simp: tick_defs same_task_state_def gpio_only_def)
next
  case STOP
  obtain e fin where r: "state_stop d = (e, fin)" by (cases "state_stop d") auto
  from state_stop_frame [OF r] assms STOP r show ?thesis
    by (cases fin) (auto simp: tick_defs same_task_state_def gpio_only_def)
next
  case ADDRESS
  with assms obtain m where m: "msg d = Some m"
    by (auto simp: tick_defs split: option.splits)
  obtain e fin where r: "state_tx d (address_byte m) i = (e, fin)"
    by (cases "state_tx d (address_byte m) i") auto
  from state_tx_frame [OF r] assms ADDRESS r m show ?thesis
    by (auto simp: tick_defs same_task_state_def gpio_only_def split: if_splits)
next
  case DATA_TX
  with assms obtain m where m: "msg d = Some m"
    by (auto simp: tick_defs split: option.splits)
  obtain e fin where r: "state_tx d (buf m (count d)) i = (e, fin)"
    by (cases "state_tx d (buf m (count d)) i") auto
  from state_tx_frame [OF r] assms DATA_TX r m show ?thesis
    by (auto simp: tick_defs same_task_state_def gpio_only_def split: if_splits)
next
  case DATA_RX
  with assms obtain m where m: "msg d = Some m"
    by (auto simp: tick_defs split: option.splits)
  obtain e x fin where r: "state_rx d (buf m (count d)) (uint (len m) \<le> count d + 1) i = (e, x, fin)"
    by (cases "state_rx d (buf m (count d)) (uint (len m) \<le> count d + 1) i") auto
  from state_rx_frame [OF r] assms DATA_RX r m show ?thesis
    by (auto simp: tick_defs same_task_state_def gpio_only_def split: if_splits)
qed

subsection \<open>Transmitting a byte\<close>

lemma sda_levels_tx_data:
  "sda_levels (tx_data_effects x) = map (\<lambda>k. if bit x k then SET else CLR) [7, 6, 5, 4, 3, 2, 1, 0]"
  by (simp add: tx_data_effects_def tx_bit_effects_def sda_effect_def)

lemma tx_steps_data_bits:
  "log (tx_steps (d\<lparr>subState := StateTx_val StateTx_FIRST\<rparr>) data
          [i1, i2, i3, i4, i5, i6, i7, i8, i9, i10, i11, i12, i13, i14, i15, i16])
     = log d @ tx_data_effects data"
  by (simp add: sub_defs val_simps decode_simps sda_write tx_mask_simps and_mask_bit
      tx_bit_effects_def tx_data_effects_def Let_def)

text \<open>
  C5. For every byte handed to \<open>state_tx\<close>, the first sixteen steps from \<open>StateTx::FIRST\<close>
  are eight times "SCL low, SDA := bit, SCL high", whatever the pins read, and the SDA levels
  driven are the bits of the byte from bit 7 down to bit 0. For \<open>0xA5\<close> they are
  1, 0, 1, 0, 0, 1, 0, 1.
\<close>

theorem tx_byte_msb_first:
  "log (tx_steps (d\<lparr>subState := StateTx_val StateTx_FIRST\<rparr>) data
          [i1, i2, i3, i4, i5, i6, i7, i8, i9, i10, i11, i12, i13, i14, i15, i16])
     = log d @ tx_data_effects data
   \<and> sda_levels (tx_data_effects data)
       = map (\<lambda>k. if bit data k then SET else CLR) [7, 6, 5, 4, 3, 2, 1, 0]
   \<and> sda_levels (tx_data_effects 0xA5) = [SET, CLR, SET, CLR, CLR, SET, CLR, SET]"
  using tx_steps_data_bits [of d data] sda_levels_tx_data [of data]
  by (simp add: sda_levels_tx_data)

subsection \<open>The address byte\<close>

lemma address_byte_bits:
  "bit (address_byte m) n \<longleftrightarrow>
     n < 8 \<and> (if n = 0 then flags m AND I2C_M_RD \<noteq> 0 else bit (addr m) (n - 1))"
proof -
  have *: "bit (addr m * 2) k \<longleftrightarrow> k \<noteq> 0 \<and> k < 16 \<and> bit (addr m) (k - 1)" for k
    using bit_double_iff [of "addr m" k] by (auto simp: mult.commute possible_bit_word)
  have z: "\<not> bit (addr m * 2) 0"
    using * [of 0] by simp
  show ?thesis
    using z by (auto simp: address_byte_def Let_def bit_or_iff bit_ucast_iff * bit_1_iff
      dest: bit_imp_le_length)
qed

text \<open>
  C6. From the first step of the address phase, with no clock stretching at the acknowledge
  step, nineteen ticks put exactly one byte on the bus: the eight data bits of
  \<open>address_byte\<close>, then the acknowledge clock, after which the machine has left
  \<open>ADDRESS\<close> (to \<open>STOP\<close> on a NACK, else to \<open>DATA_RX\<close> for a read and \<open>DATA_TX\<close> for a
  write). Bit 0 of that byte is the read flag and bits 1 to 7 are bits 0 to 6 of the address.
\<close>

theorem address_phase_sends_one_byte:
  assumes "state d = ADDRESS" and "stateTx d = Some StateTx_FIRST" and "msg d = Some m"
    and "count d = 0" and "ticking d" and "\<not> clockStretchActive d" and "scl_read i19 = SET"
  shows "\<exists>d'. run_ticks d [i1, i2, i3, i4, i5, i6, i7, i8, i9, i10, i11, i12, i13, i14, i15,
                 i16, i17, i18, i19] = Inr d'
      \<and> log d' = log d @ tx_data_effects (address_byte m)
                   @ [DrivenLow SCL, Released SDA, Released SCL, DrivenLow SCL]
      \<and> state d' = (if sda_read i19 = SET then STOP
                     else if flags m AND I2C_M_RD \<noteq> 0 then DATA_RX else DATA_TX)
      \<and> (\<forall>n. bit (address_byte m) n \<longleftrightarrow>
             n < 8 \<and> (if n = 0 then flags m AND I2C_M_RD \<noteq> 0 else bit (addr m) (n - 1)))"
proof -
  from assms(2) have n: "subState d = 0"
    by (simp add: stateTx_iff val_simps)
  have "\<exists>d'. run_ticks d [i1, i2, i3, i4, i5, i6, i7, i8, i9, i10, i11, i12, i13, i14, i15,
                 i16, i17, i18, i19] = Inr d'
      \<and> log d' = log d @ tx_data_effects (address_byte m)
                   @ [DrivenLow SCL, Released SDA, Released SCL, DrivenLow SCL]
      \<and> state d' = (if sda_read i19 = SET then STOP
                     else if flags m AND I2C_M_RD \<noteq> 0 then DATA_RX else DATA_TX)"
    using assms(1,3,4,5,6,7) n
    by (simp add: timer_period_def tick_defs sub_defs val_simps decode_simps sda_write
        tx_mask_simps and_mask_bit tx_bit_effects_def tx_data_effects_def EIO_def)
  then show ?thesis
    using address_byte_bits by blast
qed

theorem address_phase_sends_one_byte_witness:
  "\<exists>d'. run_ticks addressing (replicate 19 acking) = Inr d'
      \<and> log d' = tx_data_effects 0xA1 @ [DrivenLow SCL, Released SDA, Released SCL, DrivenLow SCL]
      \<and> state d' = DATA_RX"
proof -
  have h: "state addressing = ADDRESS" "stateTx addressing = Some StateTx_FIRST"
    "msg addressing = Some one_byte_read" "count addressing = 0" "ticking addressing"
    "\<not> clockStretchActive addressing" "scl_read acking = SET"
    by (simp_all add: addressing_def acking_def stateTx_iff)
  have a: "address_byte one_byte_read = 0xA1"
    by (simp add: address_byte_def one_byte_read_def I2C_M_RD_def)
  from address_phase_sends_one_byte [OF h, of acking acking acking acking acking acking
        acking acking acking acking acking acking acking acking acking acking acking acking]
  obtain d' where "run_ticks addressing (replicate 19 acking) = Inr d'"
    and "log d' = log addressing @ tx_data_effects (address_byte one_byte_read)
           @ [DrivenLow SCL, Released SDA, Released SCL, DrivenLow SCL]"
    and "state d' = (if sda_read acking = SET then STOP
           else if flags one_byte_read AND I2C_M_RD \<noteq> 0 then DATA_RX else DATA_TX)"
    by (auto simp: replicate_numeral)
  moreover have "log addressing = []" "sda_read acking = CLR"
    "flags one_byte_read AND I2C_M_RD \<noteq> 0"
    by (simp_all add: addressing_def acking_def one_byte_read_def I2C_M_RD_def)
  ultimately show ?thesis
    by (simp add: a)
qed

subsection \<open>Clock stretching\<close>

lemma waits_flag [simp]: "waits_for_scl (d\<lparr>clockStretchActive := b\<rparr>) = waits_for_scl d"
  by (simp add: waits_for_scl_def stateTx_def stateRx_def split: State.splits)

lemma stall_step:
  assumes "waits_for_scl d" and "ticking d" and "msg d = Some m"
    and "scl_read i = CLR \<or> clockStretchActive d"
  shows "timer_period d i = Inr (d\<lparr>clockStretchActive := (scl_read i = CLR)\<rparr>)"
proof (cases "state d")
  case DATA_RX
  with assms(1) obtain s where s: "stateRx d = Some s"
    and l: "s \<in> set rx_scl_clr_labels \<or> s = Rx_ACK_SCL_CLR"
    by (auto simp: waits_for_scl_def split: option.splits)
  have k: "e\<lparr>msg := Some (m\<lparr>buf := (buf m)(count d := buf m (count d))\<rparr>)\<rparr> = e"
    if "msg e = Some m" for e :: BitBangI2C
    using that by (cases e) simp
  have "state_rx d (buf m (count d)) nk i
          = (d\<lparr>clockStretchActive := (scl_read i = CLR)\<rparr>, buf m (count d), False)" for nk
    using l assms(4) s
    by (cases "scl_read i")
       (auto simp: state_rx_def rx_scl_clr_labels_def rx_scl_set_labels_def)
  with DATA_RX assms(2,3) show ?thesis
    by (simp add: timer_period_def tick_defs k)
next
  case ADDRESS
  with assms show ?thesis
    by (cases "scl_read i")
       (auto simp: waits_for_scl_def timer_period_def tick_defs state_tx_def
          tx_scl_clr_labels_def tx_scl_set_labels_def)
next
  case DATA_TX
  with assms show ?thesis
    by (cases "scl_read i")
       (auto simp: waits_for_scl_def timer_period_def tick_defs state_tx_def
          tx_scl_clr_labels_def tx_scl_set_labels_def)
qed (use assms in \<open>simp_all add: waits_for_scl_def\<close>)

lemma go_step:
  assumes "waits_for_scl d" and "ticking d" and "msg d = Some m"
    and "\<not> clockStretchActive d" and "scl_read i = SET"
  shows "\<exists>d' es. timer_period d i = Inr d' \<and> log d' = log d @ DrivenLow SCL # es"
proof (cases "state d")
  case DATA_RX
  with assms(1) obtain s where s: "stateRx d = Some s"
    and l: "s \<in> set rx_scl_clr_labels \<or> s = Rx_ACK_SCL_CLR"
    by (auto simp: waits_for_scl_def split: option.splits)
  obtain e x fin where r: "state_rx d (buf m (count d)) (uint (len m) \<le> count d + 1) i = (e, x, fin)"
    by (cases "state_rx d (buf m (count d)) (uint (len m) \<le> count d + 1) i") auto
  have "\<exists>es. log e = log d @ DrivenLow SCL # es"
    using l assms(4,5) s r
    by (auto simp: state_rx_def rx_scl_clr_labels_def rx_scl_set_labels_def Let_def
        incr_stateRx_def gpio_clr_def gpio_set_def)
  with DATA_RX assms(2,3) r show ?thesis
    by (auto simp: timer_period_def tick_defs)
next
  case ADDRESS
  with assms show ?thesis
    by (auto simp: waits_for_scl_def timer_period_def tick_defs state_tx_def gpio_clr_def
          tx_scl_clr_labels_def tx_scl_set_labels_def)
next
  case DATA_TX
  with assms show ?thesis
    by (auto simp: waits_for_scl_def timer_period_def tick_defs state_tx_def gpio_clr_def
          tx_scl_clr_labels_def tx_scl_set_labels_def)
qed (use assms in \<open>simp_all add: waits_for_scl_def\<close>)

lemma stall_lows:
  assumes "waits_for_scl d" and "ticking d" and "msg d = Some m"
    and "lows \<noteq> []" and "\<forall>i\<in>set lows. scl_read i = CLR"
  shows "run_ticks d lows = Inr (d\<lparr>clockStretchActive := True\<rparr>)"
  using assms
proof (induction lows arbitrary: d)
  case Nil
  then show ?case by simp
next
  case (Cons i lows)
  from Cons.prems have t: "timer_period d i = Inr (d\<lparr>clockStretchActive := True\<rparr>)"
    using stall_step [of d m i] by simp
  show ?case
  proof (cases "lows = []")
    case True
    with t show ?thesis by simp
  next
    case False
    with Cons.prems have "run_ticks (d\<lparr>clockStretchActive := True\<rparr>) lows
        = Inr (d\<lparr>clockStretchActive := True, clockStretchActive := True\<rparr>)"
      by (intro Cons.IH) simp_all
    with t show ?thesis by simp
  qed
qed

text \<open>
  C7. At a step that reads SCL before acting, while SCL reads low the tick changes nothing but
  the clock-stretch flag (no GPIO operation, no sub-state advance, byte count untouched); the
  first tick that reads SCL high only clears the flag; the tick after it, reading high again,
  performs the step, which begins by driving SCL low.
\<close>

theorem clock_stretch_repeats_step:
  assumes "waits_for_scl d" and "ticking d" and "msg d = Some m"
    and "lows \<noteq> []" and "\<forall>i\<in>set lows. scl_read i = CLR"
    and "scl_read hi = SET" and "scl_read hi' = SET"
  shows "run_ticks d lows = Inr (d\<lparr>clockStretchActive := True\<rparr>)
       \<and> run_ticks d (lows @ [hi]) = Inr (d\<lparr>clockStretchActive := False\<rparr>)
       \<and> (\<exists>d' es. run_ticks d (lows @ [hi, hi']) = Inr d'
             \<and> log d' = log d @ DrivenLow SCL # es)"
proof -
  let ?s = "d\<lparr>clockStretchActive := True\<rparr>" and ?r = "d\<lparr>clockStretchActive := False\<rparr>"
  have a: "run_ticks d lows = Inr ?s"
    using assms(1-5) by (rule stall_lows)
  have "timer_period ?s hi = Inr (?s\<lparr>clockStretchActive := (scl_read hi = CLR)\<rparr>)"
    using assms(1-3) by (intro stall_step [where m = m]) simp_all
  with assms(6) have b: "timer_period ?s hi = Inr ?r"
    by simp
  obtain d' es where c: "timer_period ?r hi' = Inr d'" "log d' = log ?r @ DrivenLow SCL # es"
    using go_step [of ?r m hi'] assms(1-3,7) by auto
  from a b have "run_ticks d (lows @ [hi]) = Inr ?r"
    by (simp add: run_ticks_append)
  moreover from a b c have "run_ticks d (lows @ [hi, hi']) = Inr d'"
    by (simp add: run_ticks_append)
  ultimately show ?thesis
    using a c(2) by auto
qed

theorem clock_stretch_repeats_step_witness:
  "run_ticks awaiting_ack [stretching, stretching] = Inr (awaiting_ack\<lparr>clockStretchActive := True\<rparr>)
   \<and> run_ticks awaiting_ack [stretching, stretching, acking] = Inr awaiting_ack
   \<and> (\<exists>d' es. run_ticks awaiting_ack [stretching, stretching, acking, acking] = Inr d'
         \<and> log d' = DrivenLow SCL # es)"
proof -
  have h: "waits_for_scl awaiting_ack" "ticking awaiting_ack"
    "msg awaiting_ack = Some one_byte_write" "[stretching, stretching] \<noteq> []"
    "\<forall>i\<in>set [stretching, stretching]. scl_read i = CLR" "scl_read acking = SET"
    by (simp_all add: awaiting_ack_def waits_for_scl_def stateTx_iff stretching_def acking_def)
  have e: "awaiting_ack\<lparr>clockStretchActive := False\<rparr> = awaiting_ack"
    by (simp add: awaiting_ack_def)
  have l: "log awaiting_ack = []"
    by (simp add: awaiting_ack_def)
  from clock_stretch_repeats_step [OF h h(6)] show ?thesis
    by (simp add: e l)
qed

subsection \<open>Enabling and disabling the tick\<close>









lemma dead_without_tick: "transfer (BitBangI2C_new False) m stp ins = Inl StillBlocked"
proof -
  have "sem_wait d ins = Inl StillBlocked" if "\<not> ticking d" "sem d = 0" for d
    using that by (induction ins) (simp_all add: timer_period_def)
  then show ?thesis
    by (simp add: transfer_def BitBangI2C_new_def gpio_set_def gpio_clr_def
        wait_bus_idle.simps [of _ ins])
qed




subsection \<open>The byte count\<close>

lemma state_tx_nack:
  assumes "stateTx d = Some Tx_ACK_SCL_CLR" "scl_read i = SET" "\<not> clockStretchActive d"
    "sda_read i = SET"
  shows "state_tx d data i = ((gpio_clr SCL d)\<lparr>count := - EIO\<rparr>, True)"
  using assms
  by (simp add: state_tx_def tx_scl_clr_labels_def tx_scl_set_labels_def)

lemma timer_period_total:
  assumes "same_message m d"
  shows "\<exists>d'. timer_period d i = Inr d' \<and> same_message m d'"
proof (cases "ticking d")
  case False
  with assms show ?thesis by (simp add: timer_period_def)
next
  case True
  from assms obtain m' where m': "msg d = Some m'"
    by (auto simp: same_message_def split: option.splits)
  show ?thesis
  proof (cases "state d")
    case START
    obtain e fin where r: "state_start d = (e, fin)" by (cases "state_start d") auto
    from state_start_frame [OF r] assms START r True show ?thesis
      by (cases fin) (auto simp: timer_period_def tick_defs same_task_state_def same_message_def)
  next
    case STOP
    obtain e fin where r: "state_stop d = (e, fin)" by (cases "state_stop d") auto
    from state_stop_frame [OF r] assms STOP r True show ?thesis
      by (cases fin) (auto simp: timer_period_def tick_defs same_task_state_def same_message_def)
  next
    case ADDRESS
    obtain e fin where r: "state_tx d (address_byte m') i = (e, fin)"
      by (cases "state_tx d (address_byte m') i") auto
    from state_tx_frame [OF r] assms ADDRESS r m' True show ?thesis
      by (auto simp: timer_period_def tick_defs same_task_state_def same_message_def)
  next
    case DATA_TX
    obtain e fin where r: "state_tx d (buf m' (count d)) i = (e, fin)"
      by (cases "state_tx d (buf m' (count d)) i") auto
    from state_tx_frame [OF r] assms DATA_TX r m' True show ?thesis
      by (auto simp: timer_period_def tick_defs same_task_state_def same_message_def)
  next
    case DATA_RX
    obtain e x fin where r: "state_rx d (buf m' (count d)) (uint (len m') \<le> count d + 1) i = (e, x, fin)"
      by (cases "state_rx d (buf m' (count d)) (uint (len m') \<le> count d + 1) i") auto
    from state_rx_frame [OF r] assms DATA_RX r m' True show ?thesis
      by (auto simp: timer_period_def tick_defs same_task_state_def same_message_def)
  qed
qed

text \<open>The sign of the byte count: negative only in STOP, and only a sampled NACK makes it so.\<close>

lemma timer_period_sign:
  assumes t: "timer_period d i = Inr d'" and inv: "state d = STOP \<or> 0 \<le> count d"
  shows "(state d' = STOP \<or> 0 \<le> count d')
       \<and> (count d' < 0 \<longleftrightarrow> count d < 0 \<or> samples_nack d i)"
proof (cases "ticking d")
  case False
  with t inv show ?thesis by (auto simp: timer_period_def samples_nack_def)
next
  case True
  show ?thesis
  proof (cases "state d")
    case START
    obtain e fin where r: "state_start d = (e, fin)" by (cases "state_start d") auto
    from state_start_frame [OF r] t inv START r True show ?thesis
      by (cases fin) (auto simp: timer_period_def tick_defs same_task_state_def samples_nack_def)
  next
    case STOP
    obtain e fin where r: "state_stop d = (e, fin)" by (cases "state_stop d") auto
    from state_stop_frame [OF r] t STOP r True show ?thesis
      by (cases fin) (auto simp: timer_period_def tick_defs same_task_state_def samples_nack_def)
  next
    case ADDRESS
    with t True obtain m' where m': "msg d = Some m'"
      by (auto simp: timer_period_def tick_defs split: option.splits)
    obtain e fin where r: "state_tx d (address_byte m') i = (e, fin)"
      by (cases "state_tx d (address_byte m') i") auto
    show ?thesis
    proof (cases "samples_nack d i")
      case True
      then have "state_tx d (address_byte m') i = ((gpio_clr SCL d)\<lparr>count := - EIO\<rparr>, True)"
        by (intro state_tx_nack) (auto simp: samples_nack_def)
      with t ADDRESS m' True show ?thesis
        by (auto simp: timer_period_def tick_defs samples_nack_def EIO_def)
    next
      case False
      with state_tx_frame [OF r] t inv ADDRESS r m' \<open>ticking d\<close> show ?thesis
        by (auto simp: timer_period_def tick_defs same_task_state_def samples_nack_def EIO_def
            split: if_splits)
    qed
  next
    case DATA_TX
    with t True obtain m' where m': "msg d = Some m'"
      by (auto simp: timer_period_def tick_defs split: option.splits)
    obtain e fin where r: "state_tx d (buf m' (count d)) i = (e, fin)"
      by (cases "state_tx d (buf m' (count d)) i") auto
    show ?thesis
    proof (cases "samples_nack d i")
      case True
      then have "state_tx d (buf m' (count d)) i = ((gpio_clr SCL d)\<lparr>count := - EIO\<rparr>, True)"
        by (intro state_tx_nack) (auto simp: samples_nack_def)
      with t DATA_TX m' True show ?thesis
        by (auto simp: timer_period_def tick_defs samples_nack_def EIO_def)
    next
      case False
      with state_tx_frame [OF r] t inv DATA_TX r m' \<open>ticking d\<close> show ?thesis
        by (auto simp: timer_period_def tick_defs same_task_state_def samples_nack_def EIO_def
            split: if_splits)
    qed
  next
    case DATA_RX
    with t True obtain m' where m': "msg d = Some m'"
      by (auto simp: timer_period_def tick_defs split: option.splits)
    obtain e x fin where r: "state_rx d (buf m' (count d)) (uint (len m') \<le> count d + 1) i = (e, x, fin)"
      by (cases "state_rx d (buf m' (count d)) (uint (len m') \<le> count d + 1) i") auto
    from state_rx_frame [OF r] t inv DATA_RX r m' True show ?thesis
      by (auto simp: timer_period_def tick_defs same_task_state_def samples_nack_def
          split: if_splits)
  qed
qed

lemma count_ok_sign: "count_ok m d \<Longrightarrow> state d = STOP \<or> 0 \<le> count d"
  by (cases "state d") (auto simp: count_ok_def)

lemma count_ok_le:
  assumes "count_ok m d"
  shows "count d \<le> uint (len m)"
proof -
  have "- EIO \<le> uint (len m)"
    using uint_ge_0 [of "len m"] unfolding EIO_def by linarith
  with assms show ?thesis
    by (cases "state d") (auto simp: count_ok_def split: if_splits)
qed

lemma timer_period_count_ok:
  assumes t: "timer_period d i = Inr d'" and c: "count_ok m d" and s: "same_message m d"
    and l: "1 \<le> uint (len m)"
  shows "count_ok m d'"
proof (cases "ticking d")
  case False
  with t c show ?thesis by (simp add: timer_period_def)
next
  case True
  from s obtain m' where m': "msg d = Some m'" "len m' = len m"
    by (auto simp: same_message_def split: option.splits)
  show ?thesis
  proof (cases "state d")
    case START
    obtain e fin where r: "state_start d = (e, fin)" by (cases "state_start d") auto
    from state_start_frame [OF r] t c START r True show ?thesis
      by (cases fin) (auto simp: timer_period_def tick_defs same_task_state_def count_ok_def)
  next
    case STOP
    obtain e fin where r: "state_stop d = (e, fin)" by (cases "state_stop d") auto
    from state_stop_frame [OF r] t c STOP r True show ?thesis
      by (cases fin) (auto simp: timer_period_def tick_defs same_task_state_def count_ok_def)
  next
    case ADDRESS
    obtain e fin where r: "state_tx d (address_byte m') i = (e, fin)"
      by (cases "state_tx d (address_byte m') i") auto
    from state_tx_frame [OF r] t c l ADDRESS r m' True show ?thesis
      by (auto simp: timer_period_def tick_defs same_task_state_def count_ok_def EIO_def
          split: if_splits)
  next
    case DATA_TX
    obtain e fin where r: "state_tx d (buf m' (count d)) i = (e, fin)"
      by (cases "state_tx d (buf m' (count d)) i") auto
    from state_tx_frame [OF r] t c l DATA_TX r m' True show ?thesis
      by (auto simp: timer_period_def tick_defs same_task_state_def count_ok_def EIO_def
          split: if_splits)
  next
    case DATA_RX
    obtain e x fin where r: "state_rx d (buf m' (count d)) (uint (len m') \<le> count d + 1) i = (e, x, fin)"
      by (cases "state_rx d (buf m' (count d)) (uint (len m') \<le> count d + 1) i") auto
    from state_rx_frame [OF r] t c l DATA_RX r m' True show ?thesis
      by (auto simp: timer_period_def tick_defs same_task_state_def count_ok_def EIO_def
          split: if_splits)
  qed
qed

lemma run_ticks_sign:
  assumes "same_message m d" and "state d = STOP \<or> 0 \<le> count d"
  shows "\<exists>d'. run_ticks d ins = Inr d' \<and> same_message m d'
           \<and> (state d' = STOP \<or> 0 \<le> count d')
           \<and> (count d' < 0 \<longleftrightarrow> count d < 0 \<or> nack_detected d ins)"
  using assms
proof (induction ins arbitrary: d)
  case Nil
  then show ?case by simp
next
  case (Cons i ins)
  from timer_period_total [OF Cons.prems(1)] obtain d1
    where t: "timer_period d i = Inr d1" and s: "same_message m d1" by blast
  from timer_period_sign [OF t Cons.prems(2)]
  have g: "state d1 = STOP \<or> 0 \<le> count d1"
    and n: "count d1 < 0 \<longleftrightarrow> count d < 0 \<or> samples_nack d i" by auto
  from Cons.IH [OF s g] obtain d' where "run_ticks d1 ins = Inr d'" "same_message m d'"
    "state d' = STOP \<or> 0 \<le> count d'" "count d' < 0 \<longleftrightarrow> count d1 < 0 \<or> nack_detected d1 ins"
    by blast
  with t n show ?case by auto
qed

lemma run_ticks_count_ok:
  assumes "run_ticks d ins = Inr d'" and "same_message m d" and "count_ok m d"
    and "1 \<le> uint (len m)"
  shows "count_ok m d'"
  using assms
proof (induction ins arbitrary: d)
  case Nil
  then show ?case by simp
next
  case (Cons i ins)
  from timer_period_total [OF Cons.prems(2)] obtain d1
    where t: "timer_period d i = Inr d1" and s: "same_message m d1" by blast
  from timer_period_count_ok [OF t Cons.prems(3,2,4)] have "count_ok m d1" .
  with Cons.IH [of d1] Cons.prems(1,4) t s show ?case by simp
qed

lemma arm_invariants:
  "same_message m (arm d m stp)" "count_ok m (arm d m stp)" "count (arm d m stp) = 0"
  "ticking (arm d m stp)" "sem (arm d m stp) = sem d" "state (arm d m stp) = START"
  by (simp_all add: arm_def enableTick_def same_message_def count_ok_def)

text \<open>
  The sign of the byte count, for every armed message: after any number of timer periods it is
  negative exactly if some tick so far sampled a NACK in the acknowledge slot of a transmitted
  byte. For a message of length at least 1 the count is moreover never above the length.
\<close>

lemma byte_count_sign:
  "\<exists>d'. run_ticks (arm d m stp) ins = Inr d'
        \<and> (count d' < 0 \<longleftrightarrow> nack_detected (arm d m stp) ins)"
  using run_ticks_sign [of m "arm d m stp" ins] by (auto simp: arm_invariants)

lemma byte_count_bound_nonempty:
  assumes "1 \<le> uint (len m)"
  shows "\<exists>d'. run_ticks (arm d m stp) ins = Inr d'
           \<and> (count d' < 0 \<longleftrightarrow> nack_detected (arm d m stp) ins)
           \<and> count d' \<le> uint (len m)"
proof -
  from run_ticks_sign [of m "arm d m stp" ins] obtain d'
    where r: "run_ticks (arm d m stp) ins = Inr d'"
      and n: "count d' < 0 \<longleftrightarrow> nack_detected (arm d m stp) ins"
    by (auto simp: arm_invariants)
  from run_ticks_count_ok [OF r arm_invariants(1,2) assms] have "count d' \<le> uint (len m)"
    by (rule count_ok_le)
  with r n show ?thesis by blast
qed

lemma byte_count_bound_example:
  "\<exists>d'. run_ticks (arm idle_driver one_byte_write True) (replicate 22 nacking) = Inr d'
        \<and> count d' = - EIO \<and> nack_detected (arm idle_driver one_byte_write True) (replicate 22 nacking)
        \<and> count d' \<le> 1"
proof -
  have h: "1 \<le> uint (len one_byte_write)"
    by (simp add: one_byte_write_def)
  from byte_count_bound_nonempty [OF h, of idle_driver True "replicate 22 nacking"]
  obtain d' where r: "run_ticks (arm idle_driver one_byte_write True) (replicate 22 nacking) = Inr d'"
    and n: "count d' < 0 \<longleftrightarrow> nack_detected (arm idle_driver one_byte_write True) (replicate 22 nacking)"
    and b: "count d' \<le> uint (len one_byte_write)"
    by blast
  have "map_sum id count (run_ticks (arm idle_driver one_byte_write True) (replicate 22 nacking))
      = Inr (- EIO)"
    by (simp add: arm_def enableTick_def idle_driver_def one_byte_write_def nacking_def
        replicate_numeral run_defs address_byte_def I2C_M_RD_def)
  with r have c: "count d' = - EIO" by simp
  with n have "nack_detected (arm idle_driver one_byte_write True) (replicate 22 nacking)"
    by (simp add: EIO_def)
  with r c b h show ?thesis by (simp add: one_byte_write_def)
qed

text \<open>
  C3 fails on the bound. \<open>transfer\<close> tests the length of the message installed by the previous
  call, not of its argument, so on a driver that has transferred a one-byte message it arms a
  message of length 0 (the case expression below is the armed call). The machine then sends
  the address byte and one data byte as for any write: after 41 ticks, the stop sequence still
  to run and the tick still enabled, the byte count is 1 while the message length is 0.
\<close>

theorem empty_message_count_exceeds_length:
  "transfer idle_driver empty_write True ins =
     (case sem_wait (arm idle_driver empty_write True) ins of
        Inl f \<Rightarrow> Inl f
      | Inr (d2, ins2) \<Rightarrow> Inr (count d2, d2, ins2))
   \<and> map_sum id (\<lambda>e. (count e, state e, ticking e))
       (run_ticks (arm idle_driver empty_write True) (replicate 41 acking))
     = Inr (1, STOP, True)
   \<and> uint (len empty_write) = 0"
  by (simp add: transfer_def wait_bus_idle_idle arm_def enableTick_def idle_driver_def
      empty_write_def one_byte_write_def acking_def
      replicate_numeral run_defs address_byte_def I2C_M_RD_def EIO_def)

text \<open>
  C10. \<open>state_rx\<close> never assigns the byte count, and in every state reached from an armed
  message the count is non-negative whenever the machine is in \<open>DATA_RX\<close>, so the branch of
  the handler that ends a receive on a negative count is never taken; a negative count always
  comes with a NACK sampled by \<open>state_tx\<close>.
\<close>

theorem receive_never_sets_error:
  "count (fst (state_rx e data nk i)) = count e
   \<and> (\<exists>d'. run_ticks (arm d m stp) ins = Inr d'
         \<and> (state d' = DATA_RX \<longrightarrow> 0 \<le> count d')
         \<and> (count d' < 0 \<longrightarrow> nack_detected (arm d m stp) ins))"
proof
  obtain e' x fin where r: "state_rx e data nk i = (e', x, fin)"
    by (cases "state_rx e data nk i") auto
  from state_rx_frame [OF r] r show "count (fst (state_rx e data nk i)) = count e"
    by simp
  from run_ticks_sign [of m "arm d m stp" ins]
  show "\<exists>d'. run_ticks (arm d m stp) ins = Inr d'
         \<and> (state d' = DATA_RX \<longrightarrow> 0 \<le> count d')
         \<and> (count d' < 0 \<longrightarrow> nack_detected (arm d m stp) ins)"
    by (auto simp: arm_invariants)
qed

theorem receive_never_sets_error_witness:
  "\<exists>d'. run_ticks (arm idle_driver one_byte_read True) (replicate 30 acking) = Inr d'
        \<and> state d' = DATA_RX \<and> 0 \<le> count d'"
proof -
  from receive_never_sets_error [where d = idle_driver and m = one_byte_read and stp = True
      and ins = "replicate 30 acking"]
  obtain d' where r: "run_ticks (arm idle_driver one_byte_read True) (replicate 30 acking) = Inr d'"
    and n: "state d' = DATA_RX \<longrightarrow> 0 \<le> count d'"
    by blast
  have "map_sum id state (run_ticks (arm idle_driver one_byte_read True) (replicate 30 acking))
      = Inr DATA_RX"
    by (simp add: arm_def enableTick_def idle_driver_def one_byte_read_def acking_def
        replicate_numeral run_defs address_byte_def I2C_M_RD_def EIO_def)
  with r have "state d' = DATA_RX" by simp
  with r n show ?thesis by blast
qed

subsection \<open>A NACK while transmitting\<close>

lemma timer_period_sem:
  assumes "timer_period d i = Inr d'"
  shows "sem d' = Suc (sem d) \<and> \<not> ticking d' \<or> sem d' = sem d \<and> ticking d' = ticking d"
proof (cases "ticking d")
  case True
  with assms have "tick_interrupt d i = Inr d'" by (simp add: timer_period_def)
  from tick_discipline [OF this] show ?thesis by (auto split: if_splits)
next
  case False
  with assms show ?thesis by (simp add: timer_period_def)
qed




lemma transfer_armed:
  assumes "\<not> stop d" and "msg d = Some m0" and "len m0 \<noteq> 0"
  shows "transfer d m stp ins =
     (case sem_wait (arm d m stp) ins of
        Inl f \<Rightarrow> Inl f
      | Inr (d2, ins2) \<Rightarrow> Inr (count d2, d2, ins2))"
  using assms by (simp add: transfer_def wait_bus_idle_idle)




subsection \<open>Completion\<close>

lemma progress_START:
  assumes "state d = START" "sub_state_ok d"
    and t: "tick_interrupt d i = Inr d'"
  shows "sub_state_ok d' \<and> direction_ok m d' \<and> clockStretchActive d' = clockStretchActive d
       \<and> sem d' = sem d \<and> steps_left m d' + 1 = steps_left m d"
proof -
  from assms obtain s where s: "subState d = StateStart_val s"
    by (auto simp: sub_state_ok_def stateStart_iff)
  show ?thesis
    using assms s
    by (cases s)
       (auto simp: tick_defs sub_defs val_simps decode_simps sub_state_ok_def steps_left_def
          bytes_left_def direction_ok_def)
qed

lemma progress_STOP:
  assumes "state d = STOP" "sub_state_ok d"
    and t: "tick_interrupt d i = Inr d'"
  shows "sub_state_ok d' \<and> direction_ok m d' \<and> clockStretchActive d' = clockStretchActive d
       \<and> (steps_left m d = 1 \<and> sem d' = Suc (sem d)
            \<or> sem d' = sem d \<and> steps_left m d' + 1 = steps_left m d)"
proof -
  from assms obtain s where s: "subState d = StateStop_val s"
    by (auto simp: sub_state_ok_def stateStop_iff)
  show ?thesis
    using assms s
    by (cases s)
       (auto simp: tick_defs sub_defs val_simps decode_simps sub_state_ok_def steps_left_def
          direction_ok_def)
qed

lemma progress_ADDRESS:
  assumes "state d = ADDRESS" "sub_state_ok d" "count d = 0" "1 \<le> uint (len m)"
    and "msg d = Some m'" "flags m' = flags m"
    and "\<not> clockStretchActive d" "scl_read i = SET" "\<not> samples_nack d i" "ticking d"
    and t: "tick_interrupt d i = Inr d'"
  shows "sub_state_ok d' \<and> direction_ok m d' \<and> \<not> clockStretchActive d'
       \<and> sem d' = sem d \<and> steps_left m d' + 1 = steps_left m d"
proof -
  from assms obtain s where s: "subState d = StateTx_val s"
    by (auto simp: sub_state_ok_def stateTx_iff)
  show ?thesis
  proof (cases "s = Tx_ACK_SCL_CLR")
    case False
    with assms s show ?thesis
      by (cases s)
         (auto simp: tick_defs sub_defs val_simps decode_simps sub_state_ok_def steps_left_def
            bytes_left_def direction_ok_def sda_write)
  next
    case True
    from assms(4) have "len m \<noteq> 0" by auto
    then have "0 < unat (len m)" by (simp add: unat_gt_0)
    then obtain k where k: "unat (len m) = Suc k"
      by (cases "unat (len m)") simp_all
    from True s assms(1,5,9,10) have a: "sda_read i = CLR"
      using assms(7,8) by (auto simp: samples_nack_def stateTx_iff)
    from True assms s a k show ?thesis
      by (auto simp: tick_defs sub_defs val_simps decode_simps sub_state_ok_def steps_left_def
            bytes_left_def direction_ok_def byte_ticks_def)
  qed
qed

lemma progress_DATA_TX:
  assumes "state d = DATA_TX" "sub_state_ok d" "0 \<le> count d" "count d < uint (len m)"
    and "msg d = Some m'" "len m' = len m" "direction_ok m d"
    and "\<not> clockStretchActive d" "scl_read i = SET" "\<not> samples_nack d i" "ticking d"
    and t: "tick_interrupt d i = Inr d'"
  shows "sub_state_ok d' \<and> direction_ok m d' \<and> \<not> clockStretchActive d'
       \<and> (steps_left m d = 1 \<and> sem d' = Suc (sem d)
            \<or> sem d' = sem d \<and> steps_left m d' + 1 = steps_left m d)"
proof -
  from assms obtain s where s: "subState d = StateTx_val s"
    by (auto simp: sub_state_ok_def stateTx_iff)
  show ?thesis
  proof (cases "s = Tx_ACK_SCL_CLR")
    case False
    with assms s show ?thesis
      by (cases s)
         (auto simp: tick_defs sub_defs val_simps decode_simps sub_state_ok_def steps_left_def
            bytes_left_def direction_ok_def sda_write)
  next
    case True
    from True s assms(1,5,10,11) have a: "sda_read i = CLR"
      using assms(8,9) by (auto simp: samples_nack_def stateTx_iff)
    have e: "nat (uint (len m) - (count d + 1)) = nat (uint (len m) - count d) - 1"
      using assms(3,4) by simp
    show ?thesis
    proof (cases "uint (len m) \<le> count d + 1")
      case last: True
      with assms(3,4) have "nat (uint (len m) - count d) = 1" by simp
      with True last assms s a show ?thesis
        by (auto simp: tick_defs sub_defs val_simps decode_simps sub_state_ok_def steps_left_def
              bytes_left_def direction_ok_def)
    next
      case more: False
      with assms(3,4) have "2 \<le> nat (uint (len m) - count d)" by simp
      then obtain j where "nat (uint (len m) - count d) = Suc (Suc j)"
        by (auto simp: le_iff_add)
      with True more assms s a e show ?thesis
        by (auto simp: tick_defs sub_defs val_simps decode_simps sub_state_ok_def steps_left_def
              bytes_left_def direction_ok_def)
    qed
  qed
qed

lemma progress_DATA_RX:
  assumes "state d = DATA_RX" "sub_state_ok d" "0 \<le> count d" "count d < uint (len m)"
    and "msg d = Some m'" "len m' = len m" "direction_ok m d"
    and "\<not> clockStretchActive d" "scl_read i = SET" "ticking d"
    and t: "tick_interrupt d i = Inr d'"
  shows "sub_state_ok d' \<and> direction_ok m d' \<and> \<not> clockStretchActive d'
       \<and> (steps_left m d = 1 \<and> sem d' = Suc (sem d)
            \<or> sem d' = sem d \<and> steps_left m d' + 1 = steps_left m d)"
proof -
  from assms obtain s where s: "subState d = StateRx_val s"
    by (auto simp: sub_state_ok_def stateRx_iff)
  show ?thesis
  proof (cases "s = Rx_ACK_SCL_CLR")
    case False
    with assms s show ?thesis
      by (cases s)
         (auto simp: tick_defs sub_defs val_simps decode_simps sub_state_ok_def steps_left_def
            bytes_left_def direction_ok_def
          split: if_splits)
  next
    case True
    have e: "nat (uint (len m) - (count d + 1)) = nat (uint (len m) - count d) - 1"
      using assms(3,4) by simp
    show ?thesis
    proof (cases "uint (len m) \<le> count d + 1")
      case last: True
      with assms(3,4) have "nat (uint (len m) - count d) = 1" by simp
      with True last assms s show ?thesis
        by (auto simp: tick_defs sub_defs val_simps decode_simps sub_state_ok_def steps_left_def
              bytes_left_def direction_ok_def)
    next
      case more: False
      with assms(3,4) have "2 \<le> nat (uint (len m) - count d)" by simp
      then obtain j where "nat (uint (len m) - count d) = Suc (Suc j)"
        by (auto simp: le_iff_add)
      with True more assms s e show ?thesis
        by (auto simp: tick_defs sub_defs val_simps decode_simps sub_state_ok_def steps_left_def
              bytes_left_def direction_ok_def)
    qed
  qed
qed

lemma progress:
  assumes a: "on_course m d" and l: "1 \<le> uint (len m)" and tk: "ticking d"
    and h: "scl_read i = SET" and n: "\<not> samples_nack d i"
  shows "\<exists>d'. timer_period d i = Inr d' \<and> on_course m d' \<and> 0 < steps_left m d
       \<and> (steps_left m d = 1 \<and> sem d' = Suc (sem d) \<and> \<not> ticking d'
            \<or> sem d' = sem d \<and> ticking d' \<and> steps_left m d' + 1 = steps_left m d)"
proof -
  from a have sm: "same_message m d" and co: "count_ok m d" and ok: "sub_state_ok d"
    and dr: "direction_ok m d" and fl: "\<not> clockStretchActive d"
    by (simp_all add: on_course_def)
  from timer_period_total [OF sm, of i] obtain d' where t: "timer_period d i = Inr d'"
    and sm': "same_message m d'" by blast
  with tk have ti: "tick_interrupt d i = Inr d'" by (simp add: timer_period_def)
  from timer_period_count_ok [OF t co sm l] have co': "count_ok m d'" .
  from sm obtain m' where m': "msg d = Some m'" "flags m' = flags m" "len m' = len m"
    by (auto simp: same_message_def split: option.splits)
  have "sub_state_ok d' \<and> direction_ok m d' \<and> \<not> clockStretchActive d'
       \<and> (steps_left m d = 1 \<and> sem d' = Suc (sem d)
            \<or> sem d' = sem d \<and> steps_left m d' + 1 = steps_left m d)"
  proof (cases "state d")
    case START
    from progress_START [OF START ok ti, of m] fl show ?thesis by simp
  next
    case STOP
    from progress_STOP [OF STOP ok ti, of m] fl show ?thesis by auto
  next
    case ADDRESS
    with co have c0: "count d = 0" by (simp add: count_ok_def)
    from progress_ADDRESS [OF ADDRESS ok c0 l m'(1,2) fl h n tk ti] show ?thesis by simp
  next
    case DATA_TX
    with co tk have c: "0 \<le> count d" "count d < uint (len m)" by (simp_all add: count_ok_def)
    from progress_DATA_TX [OF DATA_TX ok c m'(1,3) dr fl h n tk ti] show ?thesis .
  next
    case DATA_RX
    with co tk have c: "0 \<le> count d" "count d < uint (len m)" by (simp_all add: count_ok_def)
    from progress_DATA_RX [OF DATA_RX ok c m'(1,3) dr fl h tk ti] show ?thesis .
  qed
  moreover from timer_period_sem [OF t] tk
  have "sem d' = Suc (sem d) \<and> \<not> ticking d' \<or> sem d' = sem d \<and> ticking d'" by simp
  ultimately show ?thesis
    using t sm' co' by (auto simp: on_course_def)
qed

lemma sem_wait_run:
  "sem e = 0 \<Longrightarrow> sem_wait e ins = Inr (e', rest) \<Longrightarrow>
     \<exists>pre e1. ins = pre @ rest \<and> run_ticks e pre = Inr e1 \<and> \<not> ticking e1
        \<and> e' = e1\<lparr>sem := 0\<rparr>"
proof (induction ins arbitrary: e)
  case Nil
  then show ?case by simp
next
  case (Cons i ins)
  then obtain e2 where t: "timer_period e i = Inr e2" and w: "sem_wait e2 ins = Inr (e', rest)"
    by (auto split: sum.splits)
  show ?case
  proof (cases "sem e2 = 0")
    case True
    from Cons.IH [OF True w] obtain pre e1 where "ins = pre @ rest" "run_ticks e2 pre = Inr e1"
      "\<not> ticking e1" "e' = e1\<lparr>sem := 0\<rparr>" by blast
    with t show ?thesis
      by (intro exI [of _ "i # pre"] exI [of _ e1]) simp
  next
    case False
    with timer_period_sem [OF t] Cons.prems(1) have "sem e2 = 1" "\<not> ticking e2" by auto
    moreover from this w have "e' = e2\<lparr>sem := 0\<rparr>" "rest = ins"
      by (simp_all add: sem_wait_pos)
    ultimately show ?thesis using t
      by (intro exI [of _ "[i]"] exI [of _ e2]) simp
  qed
qed


lemma finished_count:
  assumes "count_ok m d" and "\<not> ticking d" and "0 \<le> count d"
  shows "count d = uint (len m)"
  using assms by (cases "state d") (auto simp: count_ok_def EIO_def)

lemma run_to_completion:
  assumes "on_course m d" and l: "1 \<le> uint (len m)" and "ticking d" and "sem d = 0"
    and "0 \<le> count d"
    and "\<forall>i\<in>set ins. scl_read i = SET" and "\<not> nack_detected d ins"
    and "steps_left m d \<le> length ins"
  shows "\<exists>d'. sem_wait d ins = Inr (d', drop (steps_left m d) ins)
           \<and> count d' = uint (len m) \<and> \<not> ticking d'"
  using assms(1,3-8)
proof (induction ins arbitrary: d)
  case Nil
  have "\<not> samples_nack d \<lparr>scl_read = SET, sda_read = CLR\<rparr>"
    by (simp add: samples_nack_def)
  from progress [OF Nil.prems(1) l Nil.prems(2) _ this] Nil.prems(7) show ?case
    by auto
next
  case (Cons i ins)
  from Cons.prems(5) have h: "scl_read i = SET" by simp
  from Cons.prems(6) have n: "\<not> samples_nack d i" by simp
  from progress [OF Cons.prems(1) l Cons.prems(2) h n] obtain d1
    where t: "timer_period d i = Inr d1" and oc: "on_course m d1"
      and p: "steps_left m d = 1 \<and> sem d1 = Suc (sem d) \<and> \<not> ticking d1
            \<or> sem d1 = sem d \<and> ticking d1 \<and> steps_left m d1 + 1 = steps_left m d"
    by blast
  from timer_period_sign [OF t] Cons.prems(4) n have c1: "0 \<le> count d1"
    by auto
  from Cons.prems(6) t have n1: "\<not> nack_detected d1 ins" by simp
  from p show ?case
  proof
    assume e: "steps_left m d = 1 \<and> sem d1 = Suc (sem d) \<and> \<not> ticking d1"
    with Cons.prems(3) t have "sem_wait d (i # ins) = Inr (d1\<lparr>sem := sem d1 - 1\<rparr>, ins)"
      by (simp add: sem_wait_pos)
    moreover from oc have "count_ok m d1" by (simp add: on_course_def)
    from finished_count [OF this _ c1] e have "count d1 = uint (len m)" by simp
    ultimately show ?thesis using e by simp
  next
    assume g: "sem d1 = sem d \<and> ticking d1 \<and> steps_left m d1 + 1 = steps_left m d"
    with Cons.prems(3,7) have "sem d1 = 0" "steps_left m d1 \<le> length ins" by simp_all
    from Cons.IH [OF oc _ this(1) c1 _ n1 this(2)] g Cons.prems(5) obtain d'
      where "sem_wait d1 ins = Inr (d', drop (steps_left m d1) ins)"
        "count d' = uint (len m)" "\<not> ticking d'"
      by auto
    moreover from g have "drop (steps_left m d) (i # ins) = drop (steps_left m d1) ins"
      by (cases "steps_left m d") simp_all
    ultimately show ?thesis using t Cons.prems(3) by simp
  qed
qed

lemma on_course_arm: "\<not> clockStretchActive d \<Longrightarrow> on_course m (arm d m stp)"
proof -
  assume f: "\<not> clockStretchActive d"
  have "stateStart (arm d m stp) = Some StateStart_FIRST"
    by (simp add: arm_def enableTick_def stateStart_iff)
  then have "sub_state_ok (arm d m stp)" "direction_ok m (arm d m stp)"
    by (simp_all add: sub_state_ok_def direction_ok_def arm_invariants)
  moreover from f have "\<not> clockStretchActive (arm d m stp)"
    by (simp add: arm_def enableTick_def)
  ultimately show ?thesis
    by (simp add: on_course_def arm_invariants)
qed

lemma steps_left_arm:
  "1 \<le> uint (len m) \<Longrightarrow> steps_left m (arm d m stp) = transfer_ticks m stp"
  by (simp add: steps_left_def transfer_ticks_def bytes_left_def arm_def enableTick_def val_simps)

lemma transfer_completes:
  assumes "\<not> stop d" and "msg d = Some m0" and "len m0 \<noteq> 0" and "sem d = 0"
    and "\<not> clockStretchActive d" and "1 \<le> uint (len m)"
    and "\<forall>i\<in>set ins. scl_read i = SET" and "\<not> nack_detected (arm d m stp) ins"
    and "transfer_ticks m stp \<le> length ins"
  shows "\<exists>d'. transfer d m stp ins = Inr (uint (len m), d', drop (transfer_ticks m stp) ins)"
proof -
  from run_to_completion [OF on_course_arm [OF assms(5)] assms(6), of stp ins] assms(4,7,8,9)
  obtain d' where "sem_wait (arm d m stp) ins = Inr (d', drop (transfer_ticks m stp) ins)"
    "count d' = uint (len m)"
    by (auto simp: arm_invariants steps_left_arm [OF assms(6)])
  then show ?thesis
    by (simp add: transfer_armed [OF assms(1-3)])
qed

lemma transfer_result:
  assumes "1 \<le> uint (len m)" and "\<not> stop d" and "sem d = 0"
    and "transfer d m stp ins = Inr (r, d', rest)" and "0 \<le> r"
  shows "r = uint (len m)"
proof -
  from assms(2,4,5) have w: "sem_wait (arm d m stp) ins = Inr (d', rest)" and r: "r = count d'"
    by (auto simp: transfer_def wait_bus_idle_idle EINVAL_def
        split: option.splits if_splits sum.splits)
  from sem_wait_run [OF _ w] assms(3) obtain pre e1
    where p: "run_ticks (arm d m stp) pre = Inr e1" "\<not> ticking e1" "d' = e1\<lparr>sem := 0\<rparr>"
    by (auto simp: arm_invariants)
  from run_ticks_count_ok [OF p(1) arm_invariants(1,2) assms(1)] have "count_ok m e1" .
  from finished_count [OF this p(2)] p(3) r assms(5) show ?thesis by simp
qed

lemma no_nack_if_sda_low: "\<forall>i\<in>set ins. sda_read i = CLR \<Longrightarrow> \<not> nack_detected d ins"
  by (induction ins arbitrary: d) (auto simp: samples_nack_def split: sum.splits)

subsection \<open>Receiving\<close>

lemma shift_in_bit: "(if c then y OR 1 else y) = y OR of_bool c"
  by simp

lemma w256: "256 * x = 0" for x :: "8 word"
proof -
  have z: "(256 :: 8 word) = 0" by simp
  show ?thesis by (simp only: z mult_zero_left)
qed

lemma rx_byte_msb_first:
  assumes "state e = DATA_RX" and "stateRx e = Some StateRx_FIRST" and "msg e = Some me"
    and "ticking e" and "\<not> clockStretchActive e"
  shows "\<exists>e' me'. run_ticks e [i7, sampled v7, i6, sampled v6, i5, sampled v5, i4, sampled v4,
                         i3, sampled v3, i2, sampled v2, i1, sampled v1, i0, sampled v0] = Inr e'
           \<and> msg e' = Some me'
           \<and> buf me' (count e)
               = horner_sum of_bool 2 (rev (map (\<lambda>v. v = SET) [v7, v6, v5, v4, v3, v2, v1, v0]))
           \<and> stateRx e' = Some Rx_ACK_SDA_SCL_SET"
proof -
  from assms(2) have n: "subState e = 0"
    by (simp add: stateRx_iff val_simps)
  show ?thesis
    using assms(1,3,4,5) n
    by (simp add: run_defs sampled_def shift_in_bit w256)
qed

lemma address_byte_cong:
  "addr m' = addr m \<Longrightarrow> flags m' = flags m \<Longrightarrow> address_byte m' = address_byte m"
  by (simp add: address_byte_def)

lemmas script_defs = start_script_def stop_script_def tx_script_def rx_script_def
  replicate_numeral

lemma read_step_START:
  assumes "state d = START" "ticking d" "sub_state_ok d" "stop d"
    and t: "tick_interrupt d i = Inr d'"
  shows "ticking d' \<and> sub_state_ok d' \<and> stop d' \<and> state d' \<noteq> DATA_TX
       \<and> log d' @ read_todo m d' = log d @ read_todo m d"
proof -
  from assms obtain s where s: "subState d = StateStart_val s"
    by (auto simp: sub_state_ok_def stateStart_iff)
  show ?thesis
    using assms s
    by (cases s)
       (auto simp: tick_defs sub_defs val_simps decode_simps sub_state_ok_def read_todo_def
          script_defs bytes_left_def)
qed

lemma read_step_STOP:
  assumes "state d = STOP" "ticking d" "sub_state_ok d"
    and t: "tick_interrupt d i = Inr d'"
  shows "(ticking d' \<longrightarrow> sub_state_ok d') \<and> state d' = STOP
       \<and> log d' @ read_todo m d' = log d @ read_todo m d"
proof -
  from assms obtain s where s: "subState d = StateStop_val s"
    by (auto simp: sub_state_ok_def stateStop_iff)
  show ?thesis
    using assms s
    by (cases s)
       (auto simp: tick_defs sub_defs val_simps decode_simps sub_state_ok_def read_todo_def
          script_defs)
qed

lemma read_step_ADDRESS:
  assumes "state d = ADDRESS" "ticking d" "sub_state_ok d" "stop d" "count d = 0"
    and "msg d = Some m'" "address_byte m' = address_byte m" "flags m' AND I2C_M_RD \<noteq> 0"
    and t: "tick_interrupt d i = Inr d'"
  shows "ticking d' \<and> sub_state_ok d' \<and> stop d' \<and> state d' \<noteq> DATA_TX
       \<and> (0 \<le> count d' \<longrightarrow> log d' @ read_todo m d' = log d @ read_todo m d)"
proof -
  from assms obtain s where s: "subState d = StateTx_val s"
    by (auto simp: sub_state_ok_def stateTx_iff)
  show ?thesis
    using assms s
    by (cases s)
       (auto simp: tick_defs sub_defs val_simps decode_simps sub_state_ok_def read_todo_def
          script_defs bytes_left_def sda_write tx_mask_simps and_mask_bit EIO_def
        split: if_splits)
qed

lemma concat_rx_script: "concat (rx_script nack) = rx_byte_effects nack"
  by (simp add: rx_script_def rx_byte_effects_def replicate_numeral)

lemma rest_bytes_unfold:
  assumes "0 < j"
  shows "rest_bytes j = concat (rx_script (j \<le> 1)) @ rest_bytes (j - 1)"
proof (cases "j = 1")
  case True
  then show ?thesis
    by (simp add: rest_bytes_def read_effects_def concat_rx_script)
next
  case False
  with assms obtain k where k: "j = Suc (Suc k)"
    by (cases j) (auto simp: gr0_conv_Suc)
  then show ?thesis
    by (simp add: rest_bytes_def read_effects_def concat_rx_script)
qed

lemma rx_todo_first: "0 < j \<Longrightarrow> rx_todo j 0 = rest_bytes j"
  by (simp add: rx_todo_def rest_bytes_unfold [of j])

lemma rx_todo_last: "rx_todo k 17 = [DrivenLow SCL, Released SDA] @ rest_bytes (k - 1)"
  by (simp add: rx_todo_def rx_script_def replicate_numeral)

lemma read_step_DATA_RX:
  assumes "state d = DATA_RX" "ticking d" "sub_state_ok d" "stop d"
    and "0 \<le> count d" "count d < uint (len m)"
    and "msg d = Some m'" "len m' = len m"
    and t: "tick_interrupt d i = Inr d'"
  shows "ticking d' \<and> sub_state_ok d' \<and> state d' \<noteq> DATA_TX \<and> (state d' \<noteq> STOP \<longrightarrow> stop d')
       \<and> log d' @ read_todo m d' = log d @ read_todo m d"
proof -
  from assms obtain s where s: "subState d = StateRx_val s"
    by (auto simp: sub_state_ok_def stateRx_iff)
  show ?thesis
  proof (cases "s = Rx_ACK_SCL_CLR")
    case False
    with assms s show ?thesis
      by (cases s)
         (auto simp: tick_defs sub_defs val_simps decode_simps sub_state_ok_def read_todo_def
            rx_todo_def script_defs bytes_left_def
          split: if_splits)
  next
    case True
    have e: "nat (uint (len m) - (count d + 1)) = nat (uint (len m) - count d) - 1"
      using assms(5,6) by simp
    have p: "0 < nat (uint (len m) - count d) - 1" if "\<not> uint (len m) \<le> count d + 1"
      using that assms(5,6) by simp
    have z: "nat (uint (len m) - count d) - 1 = 0" if "uint (len m) \<le> count d + 1"
      using that assms(5,6) by simp
    from True assms s show ?thesis
      by (auto simp: tick_defs sub_defs val_simps decode_simps sub_state_ok_def read_todo_def
            bytes_left_def rx_todo_last e rx_todo_first p z rest_bytes_def stop_script_def
          split: if_splits)
  qed
qed

lemma read_step:
  assumes a: "read_armed m d" and rd: "flags m AND I2C_M_RD \<noteq> 0" and l: "1 \<le> uint (len m)"
    and t: "timer_period d i = Inr d'"
  shows "read_armed m d' \<and> (0 \<le> count d' \<longrightarrow> log d' @ read_todo m d' = log d @ read_todo m d)"
proof (cases "ticking d")
  case False
  with t a show ?thesis by (simp add: timer_period_def)
next
  case True
  with t have ti: "tick_interrupt d i = Inr d'" by (simp add: timer_period_def)
  from a have sm: "same_message m d" and co: "count_ok m d" by (simp_all add: read_armed_def)
  from a True have ok: "sub_state_ok d" and ntx: "state d \<noteq> DATA_TX"
    and st: "state d \<noteq> STOP \<longrightarrow> stop d"
    by (simp_all add: read_armed_def)
  from timer_period_total [OF sm, of i] t have sm': "same_message m d'" by auto
  from timer_period_count_ok [OF t co sm l] have co': "count_ok m d'" .
  from sm obtain m' where m': "msg d = Some m'" "addr m' = addr m" "flags m' = flags m"
    "len m' = len m"
    by (auto simp: same_message_def split: option.splits)
  have "(ticking d' \<longrightarrow> sub_state_ok d' \<and> state d' \<noteq> DATA_TX \<and> (state d' \<noteq> STOP \<longrightarrow> stop d'))
      \<and> (0 \<le> count d' \<longrightarrow> log d' @ read_todo m d' = log d @ read_todo m d)"
  proof (cases "state d")
    case START
    with read_step_START [OF START True ok _ ti, of m] st show ?thesis by simp
  next
    case ADDRESS
    with co have c0: "count d = 0" by (simp add: count_ok_def)
    from ADDRESS st have sd: "stop d" by simp
    from read_step_ADDRESS [OF ADDRESS True ok sd c0 m'(1) address_byte_cong [OF m'(2,3)] _ ti]
      m'(3) rd
    show ?thesis by simp
  next
    case DATA_TX
    with ntx show ?thesis by simp
  next
    case DATA_RX
    with co True have c: "0 \<le> count d" "count d < uint (len m)" by (simp_all add: count_ok_def)
    from DATA_RX st have sd: "stop d" by simp
    from read_step_DATA_RX [OF DATA_RX True ok sd c m'(1,4) ti] show ?thesis by simp
  next
    case STOP
    from read_step_STOP [OF STOP True ok ti, of m] show ?thesis by simp
  qed
  with sm' co' show ?thesis by (simp add: read_armed_def)
qed

lemma read_run:
  assumes "read_armed m d" and rd: "flags m AND I2C_M_RD \<noteq> 0" and l: "1 \<le> uint (len m)"
    and "run_ticks d xs = Inr d'" and "0 \<le> count d'"
  shows "read_armed m d' \<and> log d' @ read_todo m d' = log d @ read_todo m d"
  using assms(1,4,5)
proof (induction xs arbitrary: d)
  case Nil
  then show ?case by simp
next
  case (Cons i xs)
  then obtain d1 where t: "timer_period d i = Inr d1" and r: "run_ticks d1 xs = Inr d'"
    by (auto split: sum.splits)
  from read_step [OF Cons.prems(1) rd l t] have a1: "read_armed m d1"
    and g: "0 \<le> count d1 \<longrightarrow> log d1 @ read_todo m d1 = log d @ read_todo m d" by simp_all
  from a1 have "same_message m d1" "state d1 = STOP \<or> 0 \<le> count d1"
    by (auto simp: read_armed_def dest: count_ok_sign)
  from run_ticks_sign [OF this, of xs] r Cons.prems(3) have "0 \<le> count d1"
    by auto
  with g Cons.IH [OF a1 r Cons.prems(3)] show ?case by simp
qed

lemma concat_tx_script: "concat (tx_script data) = tx_data_effects data @ tx_ack_effects"
  by (simp add: tx_script_def tx_data_effects_def tx_bit_effects_def tx_ack_effects_def)

lemma read_todo_arm:
  assumes "1 \<le> uint (len m)"
  shows "read_todo m (arm d m True) =
     start_effects @ tx_data_effects (address_byte m) @ tx_ack_effects
       @ read_effects (unat (len m)) @ stop_effects @ [DisableTick, SemPost]"
proof -
  from assms have "len m \<noteq> 0" by auto
  then have n: "0 < unat (len m)"
    by (simp add: unat_gt_0)
  then have "rx_todo (unat (len m)) 0 = read_effects (unat (len m))"
    by (simp add: rx_todo_first rest_bytes_def)
  moreover have "bytes_left m (arm d m True) = unat (len m)"
    by (simp add: bytes_left_def arm_def enableTick_def)
  moreover have "ticking (arm d m True)" "state (arm d m True) = START"
    "subState (arm d m True) = 0"
    by (simp_all add: arm_def enableTick_def val_simps)
  ultimately show ?thesis
    by (simp add: read_todo_def concat_tx_script start_script_def start_effects_def
        stop_script_def stop_effects_def)
qed

lemma read_armed_arm: "read_armed m (arm d m True)"
proof -
  have "stateStart (arm d m True) = Some StateStart_FIRST"
    by (simp add: arm_def enableTick_def stateStart_iff)
  then have "sub_state_ok (arm d m True)" "stop (arm d m True)"
    by (simp_all add: sub_state_ok_def arm_invariants) (simp add: arm_def enableTick_def)
  then show ?thesis
    by (simp add: read_armed_def arm_invariants)
qed

text \<open>
  C8. A call \<open>transfer(msg, true)\<close> on an idle driver, for a read message of \<open>n \<ge> 1\<close> bytes,
  that returns without an error returns \<open>n\<close>, and the effects it added are exactly: enabling
  the tick, the start sequence, the address byte and its acknowledge clock, \<open>n - 1\<close> received
  bytes whose acknowledge slot the master drives low, a last received byte whose acknowledge
  slot it leaves released, the stop sequence, disabling the tick and the semaphore post;
  whatever clock stretching happened on the way. Such a call does return, after
  \<open>transfer_ticks\<close> ticks, when the clock is never stretched and the address is
  acknowledged. And a byte received without stretching is the eight SDA samples, the first
  one in bit 7.
\<close>

theorem read_acks_all_but_last_byte:
  assumes "flags m AND I2C_M_RD \<noteq> 0" and "1 \<le> uint (len m)" and "\<not> stop d" and "sem d = 0"
  shows "(transfer d m True ins = Inr (r, d', rest) \<and> 0 \<le> r \<longrightarrow>
            r = uint (len m)
          \<and> log d' = log d @ [EnableTick] @ start_effects @ tx_data_effects (address_byte m)
                   @ tx_ack_effects @ read_effects (unat (len m)) @ stop_effects
                   @ [DisableTick, SemPost])
     \<and> (msg d = Some m0 \<and> len m0 \<noteq> 0 \<and> \<not> clockStretchActive d
          \<and> (\<forall>i\<in>set ins. scl_read i = SET) \<and> \<not> nack_detected (arm d m True) ins
          \<and> transfer_ticks m True \<le> length ins \<longrightarrow>
        (\<exists>d''. transfer d m True ins
                 = Inr (uint (len m), d'', drop (transfer_ticks m True) ins)))
     \<and> (state e = DATA_RX \<and> stateRx e = Some StateRx_FIRST \<and> msg e = Some me \<and> ticking e
          \<and> \<not> clockStretchActive e \<longrightarrow>
        (\<exists>e' me'. run_ticks e [i7, sampled v7, i6, sampled v6, i5, sampled v5, i4, sampled v4,
                         i3, sampled v3, i2, sampled v2, i1, sampled v1, i0, sampled v0] = Inr e'
           \<and> msg e' = Some me'
           \<and> buf me' (count e)
               = horner_sum of_bool 2 (rev (map (\<lambda>v. v = SET) [v7, v6, v5, v4, v3, v2, v1, v0]))))"
proof (intro conjI impI)
  assume tr: "transfer d m True ins = Inr (r, d', rest) \<and> 0 \<le> r"
  with assms(3) have w: "sem_wait (arm d m True) ins = Inr (d', rest)" and r: "r = count d'"
    by (auto simp: transfer_def wait_bus_idle_idle EINVAL_def
        split: option.splits if_splits sum.splits)
  from sem_wait_run [OF _ w] assms(4) obtain pre e1
    where p: "run_ticks (arm d m True) pre = Inr e1" "\<not> ticking e1" "d' = e1\<lparr>sem := 0\<rparr>"
    by (auto simp: arm_invariants)
  from p(3) r tr have c: "0 \<le> count e1" by simp
  from read_run [OF read_armed_arm assms(1,2) p(1) c]
  have a: "read_armed m e1"
    and g: "log e1 @ read_todo m e1 = log (arm d m True) @ read_todo m (arm d m True)"
    by simp_all
  from a have "count_ok m e1" by (simp add: read_armed_def)
  from finished_count [OF this p(2) c] p(3) r show "r = uint (len m)" by simp
  from g p(2) have "log e1 = log d @ [EnableTick] @ read_todo m (arm d m True)"
    by (simp add: read_todo_def arm_def enableTick_def)
  with p(3) show "log d' = log d @ [EnableTick] @ start_effects @ tx_data_effects (address_byte m)
                   @ tx_ack_effects @ read_effects (unat (len m)) @ stop_effects
                   @ [DisableTick, SemPost]"
    by (simp add: read_todo_arm [OF assms(2)])
next
  assume "msg d = Some m0 \<and> len m0 \<noteq> 0 \<and> \<not> clockStretchActive d
          \<and> (\<forall>i\<in>set ins. scl_read i = SET) \<and> \<not> nack_detected (arm d m True) ins
          \<and> transfer_ticks m True \<le> length ins"
  then show "\<exists>d''. transfer d m True ins
                 = Inr (uint (len m), d'', drop (transfer_ticks m True) ins)"
    using transfer_completes [OF assms(3) _ _ assms(4) _ assms(2), of m0 ins True] by blast
next
  assume "state e = DATA_RX \<and> stateRx e = Some StateRx_FIRST \<and> msg e = Some me \<and> ticking e
          \<and> \<not> clockStretchActive e"
  then show "\<exists>e' me'. run_ticks e [i7, sampled v7, i6, sampled v6, i5, sampled v5, i4, sampled v4,
                         i3, sampled v3, i2, sampled v2, i1, sampled v1, i0, sampled v0] = Inr e'
           \<and> msg e' = Some me'
           \<and> buf me' (count e)
               = horner_sum of_bool 2 (rev (map (\<lambda>v. v = SET) [v7, v6, v5, v4, v3, v2, v1, v0]))"
    using rx_byte_msb_first [of e me i7 v7 i6 v6 i5 v5 i4 v4 i3 v3 i2 v2 i1 v1 i0 v0]
    by blast
qed

theorem read_acks_all_but_last_byte_witness:
  "\<exists>d'. transfer idle_driver two_byte_read True (replicate 61 acking) = Inr (2, d', [])
     \<and> log d' = [EnableTick] @ start_effects @ tx_data_effects 0xA1 @ tx_ack_effects
                   @ rx_byte_effects False @ rx_byte_effects True @ stop_effects
                   @ [DisableTick, SemPost]
     \<and> (\<exists>e' me'. run_ticks receiving
             [acking, sampled SET, acking, sampled CLR, acking, sampled SET, acking, sampled CLR,
              acking, sampled CLR, acking, sampled SET, acking, sampled CLR, acking, sampled SET]
               = Inr e'
           \<and> msg e' = Some me' \<and> buf me' 0 = 0xA5)"
proof -
  have h: "flags two_byte_read AND I2C_M_RD \<noteq> 0" "1 \<le> uint (len two_byte_read)"
    "\<not> stop idle_driver" "sem idle_driver = 0"
    by (simp_all add: two_byte_read_def I2C_M_RD_def idle_driver_def)
  have q: "msg idle_driver = Some one_byte_write \<and> len one_byte_write \<noteq> 0
      \<and> \<not> clockStretchActive idle_driver
      \<and> (\<forall>i\<in>set (replicate 61 acking). scl_read i = SET)
      \<and> \<not> nack_detected (arm idle_driver two_byte_read True) (replicate 61 acking)
      \<and> transfer_ticks two_byte_read True \<le> length (replicate 61 acking)"
    by (simp add: idle_driver_def one_byte_write_def acking_def no_nack_if_sda_low
        transfer_ticks_def byte_ticks_def two_byte_read_def I2C_M_RD_def)
  have k: "state receiving = DATA_RX \<and> stateRx receiving = Some StateRx_FIRST
      \<and> msg receiving = Some two_byte_read \<and> ticking receiving
      \<and> \<not> clockStretchActive receiving"
    by (simp add: receiving_def stateRx_iff)
  have a: "address_byte two_byte_read = 0xA1" "unat (len two_byte_read) = 2"
    "uint (len two_byte_read) = 2" "transfer_ticks two_byte_read True = 61"
    "log idle_driver = []" "count receiving = 0"
    by (simp_all add: address_byte_def two_byte_read_def I2C_M_RD_def idle_driver_def
        receiving_def transfer_ticks_def byte_ticks_def)
  have r: "read_effects 2 = rx_byte_effects False @ rx_byte_effects True"
    by (simp add: read_effects_def)
  note t = read_acks_all_but_last_byte [OF h, where ins = "replicate 61 acking"
      and ?m0.0 = one_byte_write and e = receiving and me = two_byte_read
      and ?i7.0 = acking and ?i6.0 = acking and ?i5.0 = acking and ?i4.0 = acking
      and ?i3.0 = acking and ?i2.0 = acking and ?i1.0 = acking and ?i0.0 = acking
      and ?v7.0 = SET and ?v6.0 = CLR and ?v5.0 = SET and ?v4.0 = CLR
      and ?v3.0 = CLR and ?v2.0 = SET and ?v1.0 = CLR and ?v0.0 = SET]
  from t q have "\<exists>d''. transfer idle_driver two_byte_read True (replicate 61 acking)
      = Inr (uint (len two_byte_read), d'',
             drop (transfer_ticks two_byte_read True) (replicate 61 acking))"
    by blast
  then obtain X where ev: "transfer idle_driver two_byte_read True (replicate 61 acking)
      = Inr (2, X, [])"
    by (auto simp: a)
  have z: "(0::int) \<le> 2" by simp
  from t [where r = 2 and d' = X and rest = "[]"] ev z
  have l: "log X = log idle_driver @ [EnableTick] @ start_effects
        @ tx_data_effects (address_byte two_byte_read) @ tx_ack_effects
        @ read_effects (unat (len two_byte_read)) @ stop_effects @ [DisableTick, SemPost]"
    by blast
  from t [where r = 2 and d' = X and rest = "[]"] k obtain e' me'
    where b: "run_ticks receiving
             [acking, sampled SET, acking, sampled CLR, acking, sampled SET, acking, sampled CLR,
              acking, sampled CLR, acking, sampled SET, acking, sampled CLR, acking, sampled SET]
               = Inr e'"
      "msg e' = Some me'"
      "buf me' (count receiving)
         = horner_sum of_bool 2 (rev (map (\<lambda>v. v = SET) [SET, CLR, SET, CLR, CLR, SET, CLR, SET]))"
    by blast
  from b(3) have "buf me' 0 = 0xA5"
    by (simp add: a)
  with ev l b(1,2) show ?thesis
    by (auto simp: a r)
qed

subsection \<open>The length test of transfer\<close>

lemma timer_period_no_msg: "timer_period d i = Inr d' \<Longrightarrow> msg d = None \<Longrightarrow> msg d' = None"
proof (cases "state d")
  case START
  assume a: "timer_period d i = Inr d'" "msg d = None"
  obtain e fin where r: "state_start d = (e, fin)" by (cases "state_start d") auto
  from state_start_frame [OF r] a START r show ?thesis
    by (cases fin) (auto simp: timer_period_def tick_defs same_task_state_def split: if_splits)
next
  case STOP
  assume a: "timer_period d i = Inr d'" "msg d = None"
  obtain e fin where r: "state_stop d = (e, fin)" by (cases "state_stop d") auto
  from state_stop_frame [OF r] a STOP r show ?thesis
    by (cases fin) (auto simp: timer_period_def tick_defs same_task_state_def split: if_splits)
qed (auto simp: timer_period_def tick_defs split: if_splits)

lemma sem_wait_no_msg: "sem_wait d ins = Inr (d', rest) \<Longrightarrow> msg d = None \<Longrightarrow> msg d' = None"
proof (induction ins arbitrary: d)
  case Nil
  then show ?case by (auto split: if_splits)
next
  case (Cons i ins)
  then show ?case
    by (auto split: if_splits sum.splits dest: timer_period_no_msg)
qed

lemma wait_bus_idle_no_msg:
  "wait_bus_idle d ins = Inr (d', rest) \<Longrightarrow> msg d = None \<Longrightarrow> msg d' = None"
proof (induction d ins rule: wait_bus_idle.induct)
  case (1 d ins)
  show ?case
  proof (cases "stop d")
    case True
    with "1.prems" obtain e ins1 where w: "sem_wait d ins = Inr (e, ins1)"
      and r: "wait_bus_idle e ins1 = Inr (d', rest)"
      by (auto simp: wait_bus_idle.simps [of d ins] split: sum.splits)
    from sem_wait_no_msg [OF w] "1.prems"(2) have "msg e = None" by simp
    with "1.IH" [OF True w refl r] show ?thesis by simp
  next
    case False
    with "1.prems" show ?thesis by (simp add: wait_bus_idle.simps [of d ins])
  qed
qed

text \<open>
  C1, at the first call. The constructor sets \<open>msg_\<close> to the null pointer and \<open>transfer\<close>
  tests \<open>msg_->len\<close> before it assigns \<open>msg_ = msg\<close>: on a new driver the call reads through
  the null pointer (or never gets past the wait for the initial stop sequence), whatever the
  message, and returns no byte count.
\<close>

theorem first_transfer_reads_null_message:
  "(transfer (BitBangI2C_new t) m stp ins = Inl NullDereference
      \<or> transfer (BitBangI2C_new t) m stp ins = Inl StillBlocked)
   \<and> transfer (BitBangI2C_new True) one_byte_write True (replicate 50 acking)
       = Inl NullDereference"
proof
  have n: "msg (BitBangI2C_new t) = None"
    by (simp add: BitBangI2C_new_def gpio_set_def gpio_clr_def)
  have "\<exists>f. transfer (BitBangI2C_new t) m stp ins = Inl f"
    using wait_bus_idle_no_msg [OF _ n]
    by (auto simp: transfer_def split: sum.splits option.splits)
  then show "transfer (BitBangI2C_new t) m stp ins = Inl NullDereference
      \<or> transfer (BitBangI2C_new t) m stp ins = Inl StillBlocked"
    by (metis failure.exhaust)
  show "transfer (BitBangI2C_new True) one_byte_write True (replicate 50 acking)
       = Inl NullDereference"
    by (simp add: transfer_def BitBangI2C_new_def replicate_numeral run_defs acking_def
        wait_bus_idle.simps)
qed

text \<open>
  C2, on a driver that has transferred a one-byte message before. The length test looks at
  that earlier message, so a message whose \<open>len\<close> is 0 is installed and transferred: start,
  address byte, one data byte read from \<open>buf[0]\<close>, stop; the call returns 1.
\<close>

theorem empty_message_is_transferred:
  "map_sum id fst (transfer idle_driver empty_write True (replicate 44 acking)) = Inr 1
   \<and> map_sum id (\<lambda>r. log (fst (snd r))) (transfer idle_driver empty_write True (replicate 44 acking))
       = Inr ([EnableTick] @ start_effects @ tx_data_effects 0xA0
              @ [DrivenLow SCL, Released SDA, Released SCL, DrivenLow SCL]
              @ tx_data_effects 0xA5
              @ [DrivenLow SCL, Released SDA, Released SCL, DrivenLow SCL]
              @ stop_effects @ [DisableTick, SemPost])"
proof -
  have "\<exists>d'. transfer idle_driver empty_write True (replicate 44 acking) = Inr (1, d', [])
     \<and> log d' = [EnableTick] @ start_effects @ tx_data_effects 0xA0
              @ [DrivenLow SCL, Released SDA, Released SCL, DrivenLow SCL]
              @ tx_data_effects 0xA5
              @ [DrivenLow SCL, Released SDA, Released SCL, DrivenLow SCL]
              @ stop_effects @ [DisableTick, SemPost]"
    by (simp add: transfer_def idle_driver_def empty_write_def one_byte_write_def acking_def
        arm_def enableTick_def replicate_numeral run_defs address_byte_def I2C_M_RD_def
        start_effects_def stop_effects_def tx_data_effects_def tx_bit_effects_def sda_effect_def
        EIO_def wait_bus_idle_idle)
  then show ?thesis by auto
qed

end
